theory Spec2Isabelle
  imports Complex_Main "HOL-Library.Word" "HOL-Library.Signed_Division"
begin

unbundle bit_operations_syntax

section \<open>Media primitives: chunks\<close>

text \<open>
  Go's \<open>float64\<close> times are modelled as real numbers: the model is the code on finite
  values whose sums and products the code forms are representable (integers below
  \<open>2 ^ 53\<close> and the probed durations themselves), which covers every duration a
  media file has. Go's \<open>uint\<close> is a 64-bit word.
\<close>

record Chunk =
  c_ChunkID :: "64 word"
  c_StartTime :: real
  c_EndTime :: real
  c_SourcePath :: string

datatype chunk_error = SourcePathEmpty | EndTimeZero | StartNotBeforeEnd

text \<open>
  \<open>strings.TrimSpace s == ""\<close> holds when the bytes of \<open>s\<close> decode (UTF-8) into white
  space only: the six ASCII white-space bytes, U+0085, U+00A0, U+1680, U+2000 to U+200A,
  U+2028, U+2029, U+202F, U+205F and U+3000.
\<close>

definition ascii_space :: "nat \<Rightarrow> bool" where
  "ascii_space b = (b = 9 \<or> b = 10 \<or> b = 11 \<or> b = 12 \<or> b = 13 \<or> b = 32)"

fun only_space :: "nat list \<Rightarrow> bool" where
  "only_space [] = True"
| "only_space (b # bs) =
     (if ascii_space b then only_space bs
      else (case bs of
        [] \<Rightarrow> False
      | b2 # bs2 \<Rightarrow>
          if b = 194 \<and> (b2 = 133 \<or> b2 = 160) then only_space bs2
          else (case bs2 of
            [] \<Rightarrow> False
          | b3 # bs3 \<Rightarrow>
              if (b = 225 \<and> b2 = 154 \<and> b3 = 128)
                 \<or> (b = 226 \<and> b2 = 128
                     \<and> (128 \<le> b3 \<and> b3 \<le> 138 \<or> b3 = 168 \<or> b3 = 169 \<or> b3 = 175))
                 \<or> (b = 226 \<and> b2 = 129 \<and> b3 = 159)
                 \<or> (b = 227 \<and> b2 = 128 \<and> b3 = 128)
              then only_space bs3 else False)))"

definition TrimSpace_empty :: "string \<Rightarrow> bool" where
  "TrimSpace_empty s = only_space (map of_char s)"

definition Chunk_Validate :: "Chunk \<Rightarrow> chunk_error option" where
  "Chunk_Validate c =
     (if TrimSpace_empty (c_SourcePath c) then Some SourcePathEmpty
      else if c_EndTime c = 0 then Some EndTimeZero
      else if c_StartTime c \<ge> c_EndTime c then Some StartNotBeforeEnd
      else None)"

section \<open>Chunk planner\<close>

record ChapterInfo =
  ch_StartTime :: string
  ch_EndTime :: string

text \<open>
  The \<open>MediaInfo\<close> interface: \<open>GetDuration\<close> returns a duration or an error
  (\<open>None\<close>), \<open>HasChapters\<close> and \<open>GetChapters\<close> are what the probe reports.
\<close>

record MediaInfo =
  GetDuration :: "real option"
  HasChapters :: bool
  GetChapters :: "ChapterInfo list"

record Chunker =
  sourcePath :: string
  chunkDuration :: "32 word"
  useChapters :: bool

definition MinChunkDuration :: nat where "MinChunkDuration = 1"
definition MaxChunkDuration :: nat where "MaxChunkDuration = 86400"

datatype chunker_error =
    EmptySourcePath
  | ChunkDurationTooSmall
  | ChunkDurationTooLarge
  | NilMediaInfo
  | GetDurationFailed
  | InvalidDuration
  | NoChapters
  | ParseStartFailed nat
  | ParseEndFailed nat
  | InvalidChunk nat chunk_error

text \<open>
  \<open>createChunksFromChapters\<close>: the loop over the chapters, with the index \<open>i\<close> and
  the chunks appended so far. \<open>scanf\<close> stands for \<open>fmt.Sscanf(s, "%f", &x)\<close>, which
  the library provides: \<open>None\<close> when it returns an error.
\<close>

fun chaptersLoop ::
  "(string \<Rightarrow> real option) \<Rightarrow> string \<Rightarrow> nat \<Rightarrow> ChapterInfo list \<Rightarrow> Chunk list
     \<Rightarrow> chunker_error + Chunk list" where
  "chaptersLoop scanf src i [] chunks = Inr chunks"
| "chaptersLoop scanf src i (chapter # rest) chunks =
     (case scanf (ch_StartTime chapter) of
        None \<Rightarrow> Inl (ParseStartFailed (i + 1))
      | Some startTime \<Rightarrow>
          (case scanf (ch_EndTime chapter) of
             None \<Rightarrow> Inl (ParseEndFailed (i + 1))
           | Some endTime \<Rightarrow>
               (let chunk = \<lparr>c_ChunkID = of_nat (i + 1), c_StartTime = startTime,
                              c_EndTime = endTime, c_SourcePath = src\<rparr>
                in case Chunk_Validate chunk of
                     Some e \<Rightarrow> Inl (InvalidChunk (i + 1) e)
                   | None \<Rightarrow> chaptersLoop scanf src (i + 1) rest (chunks @ [chunk]))))"

definition createChunksFromChapters ::
  "(string \<Rightarrow> real option) \<Rightarrow> Chunker \<Rightarrow> MediaInfo \<Rightarrow> chunker_error + Chunk list" where
  "createChunksFromChapters scanf c mediaInfo =
     (let chapters = GetChapters mediaInfo
      in if length chapters = 0 then Inl NoChapters
         else chaptersLoop scanf (sourcePath c) 0 chapters [])"

text \<open>
  Go's \<open>int(x)\<close> on a float truncates towards zero.  The real numbers stand for the
  finite \<open>float64\<close> values and the integers for the \<open>int\<close> values: \<open>trunc\<close>,
  \<open>chunkCountOf\<close> and \<open>createFixedDurationChunks\<close> compute what the code computes as
  long as the duration is below \<open>2^53\<close>, where every product and sum that the code forms is
  exact in \<open>float64\<close>, and the chunk count is one that \<open>int\<close> holds and \<open>make\<close> accepts as a
  capacity.  Beyond that the code rounds, the conversion \<open>int(x)\<close> is out of range from
  \<open>2^63\<close>, and \<open>make\<close> panics; none of this is in the model, and the property of the
  fixed-width plan is stated within these bounds.
\<close>

definition trunc :: "real \<Rightarrow> int" where
  "trunc x = (if x \<ge> 0 then \<lfloor>x\<rfloor> else \<lceil>x\<rceil>)"

definition chunkCountOf :: "real \<Rightarrow> real \<Rightarrow> int" where
  "chunkCountOf duration chunkDurationFloat =
     (let chunkCount = trunc (duration / chunkDurationFloat);
          chunkCount = (if duration > of_int chunkCount * chunkDurationFloat
                        then chunkCount + 1 else chunkCount)
      in if chunkCount = 0 then 1 else chunkCount)"

function fixedLoop ::
  "string \<Rightarrow> real \<Rightarrow> real \<Rightarrow> int \<Rightarrow> int \<Rightarrow> Chunk list \<Rightarrow> chunker_error + Chunk list" where
  "fixedLoop src duration chunkDurationFloat chunkCount i chunks =
     (if i < chunkCount then
        (let startTime = of_int i * chunkDurationFloat;
             endTime = startTime + chunkDurationFloat;
             endTime = (if endTime > duration then duration else endTime);
             chunk = \<lparr>c_ChunkID = of_int (i + 1), c_StartTime = startTime,
                      c_EndTime = endTime, c_SourcePath = src\<rparr>
         in case Chunk_Validate chunk of
              Some e \<Rightarrow> Inl (InvalidChunk (nat (i + 1)) e)
            | None \<Rightarrow>
                fixedLoop src duration chunkDurationFloat chunkCount (i + 1) (chunks @ [chunk]))
      else Inr chunks)"
  by pat_completeness auto
termination
  by (relation "measure (\<lambda>(src, d, w, n, i, cs). nat (n - i))") auto

declare fixedLoop.simps [simp del]

definition createFixedDurationChunks :: "Chunker \<Rightarrow> real \<Rightarrow> chunker_error + Chunk list" where
  "createFixedDurationChunks c duration =
     (if duration \<le> 0 then Inl InvalidDuration
      else let chunkDurationFloat = real (unat (chunkDuration c))
           in fixedLoop (sourcePath c) duration chunkDurationFloat
                (chunkCountOf duration chunkDurationFloat) 0 [])"

text \<open>\<open>CreateChunks\<close>; a nil \<open>MediaInfo\<close> is \<open>None\<close>.\<close>

definition CreateChunks ::
  "(string \<Rightarrow> real option) \<Rightarrow> Chunker \<Rightarrow> MediaInfo option \<Rightarrow> chunker_error + Chunk list" where
  "CreateChunks scanf c mediaInfo =
     (if sourcePath c = [] then Inl EmptySourcePath
      else if unat (chunkDuration c) < MinChunkDuration then Inl ChunkDurationTooSmall
      else if unat (chunkDuration c) > MaxChunkDuration then Inl ChunkDurationTooLarge
      else case mediaInfo of
        None \<Rightarrow> Inl NilMediaInfo
      | Some mi \<Rightarrow>
          (case GetDuration mi of
             None \<Rightarrow> Inl GetDurationFailed
           | Some duration \<Rightarrow>
               if duration \<le> 0 then Inl InvalidDuration
               else
                 (case (if useChapters c \<and> HasChapters mi
                        then createChunksFromChapters scanf c mi else Inl NoChapters) of
                    Inr chunks \<Rightarrow>
                      if useChapters c \<and> HasChapters mi \<and> length chunks > 0 then Inr chunks
                      else createFixedDurationChunks c duration
                  | Inl e \<Rightarrow> createFixedDurationChunks c duration)))"

text \<open>
  Two notions used to state the planner's properties. \<open>fixedChunk\<close> is the chunk the
  fixed-width loop builds at index \<open>j\<close>; \<open>entry_fails\<close> says that a chapter entry
  fails to parse or fails validation.
\<close>

definition fixedChunk :: "string \<Rightarrow> real \<Rightarrow> real \<Rightarrow> int \<Rightarrow> Chunk" where
  "fixedChunk src D W j =
     \<lparr>c_ChunkID = of_int (j + 1), c_StartTime = of_int j * W,
      c_EndTime = (if of_int j * W + W > D then D else of_int j * W + W), c_SourcePath = src\<rparr>"

definition entry_fails :: "(string \<Rightarrow> real option) \<Rightarrow> string \<Rightarrow> ChapterInfo \<Rightarrow> bool" where
  "entry_fails scanf src chapter =
     (case scanf (ch_StartTime chapter) of
        None \<Rightarrow> True
      | Some s \<Rightarrow> (case scanf (ch_EndTime chapter) of
          None \<Rightarrow> True
        | Some e \<Rightarrow> TrimSpace_empty src \<or> e = 0 \<or> s \<ge> e))"

section \<open>Encoder results\<close>

text \<open>A Go \<open>error\<close> value is its message; \<open>nil\<close> is \<open>None\<close>.\<close>

type_synonym go_error = string

record EncoderResult =
  r_ChunkID :: "64 word"
  r_OutputPath :: string
  r_Success :: bool
  r_Error :: "go_error option"

datatype result_error =
    SuccessWithError
  | FailedWithoutError
  | SuccessWithoutOutputPath
  | FailedWithOutputPath

definition EncoderResult_Validate :: "EncoderResult \<Rightarrow> result_error option" where
  "EncoderResult_Validate er =
     (if r_Success er \<and> r_Error er \<noteq> None then Some SuccessWithError
      else if \<not> r_Success er \<and> r_Error er = None then Some FailedWithoutError
      else if r_Success er \<and> TrimSpace_empty (r_OutputPath er) then Some SuccessWithoutOutputPath
      else if \<not> r_Success er \<and> \<not> TrimSpace_empty (r_OutputPath er) then Some FailedWithOutputPath
      else None)"

definition NewEncoderResultFailure :: "64 word \<Rightarrow> go_error option \<Rightarrow> EncoderResult option" where
  "NewEncoderResultFailure chunkID encError =
     (if encError = None then None
      else Some \<lparr>r_ChunkID = chunkID, r_OutputPath = [], r_Success = False, r_Error = encError\<rparr>)"

section \<open>Concatenation finalizer\<close>

text \<open>
  What the concatenator asks of its environment: \<open>os.Stat\<close> on a chunk file before the
  join and on the output after it, \<open>os.CreateTemp\<close>, \<open>filepath.Abs\<close>, writing a line
  to the list file, and the \<open>ffmpeg\<close> subprocess on an argument vector.
\<close>

record concat_env =
  stat :: "string \<Rightarrow> bool"
  createTemp :: "string option"
  absPath :: "string \<Rightarrow> string option"
  writeString :: "string \<Rightarrow> bool"
  ffmpeg :: "string list \<Rightarrow> bool"
  statAfter :: "string \<Rightarrow> bool"

datatype concat_error =
    NoResultsProvided
  | StrictChunksFailed nat
  | NoSuccessfulChunks
  | MissingChunks "64 word list"
  | CreateTempFailed
  | AbsPathFailed string
  | WriteFailed
  | FfmpegError
  | OutputNotCreated

text \<open>
  \<open>validateResults\<close>: the successful and the failed results, the successful ones sorted
  by chunk id.
\<close>

fun splitResults ::
  "concat_env \<Rightarrow> EncoderResult list \<Rightarrow> EncoderResult list \<times> EncoderResult list" where
  "splitResults env [] = ([], [])"
| "splitResults env (result # rest) =
     (let (successful, failed) = splitResults env rest
      in if r_Success result \<and> r_OutputPath result \<noteq> [] then
           (if \<not> stat env (r_OutputPath result) then (successful, result # failed)
            else (result # successful, failed))
         else (successful, result # failed))"

definition validateResults ::
  "concat_env \<Rightarrow> EncoderResult list
     \<Rightarrow> concat_error + (EncoderResult list \<times> EncoderResult list)" where
  "validateResults env results =
     (if length results = 0 then Inl NoResultsProvided
      else let (successful, failed) = splitResults env results
           in Inr (sort_key r_ChunkID successful, failed))"

text \<open>
  \<open>checkForGaps\<close>: for each pair of neighbours whose ids are not consecutive, the ids
  from \<open>currentID + 1\<close> up to, not including, \<open>nextID\<close> are recorded.
\<close>

fun gapsOf :: "EncoderResult list \<Rightarrow> 64 word list" where
  "gapsOf (current # next # rest) =
     (if r_ChunkID next \<noteq> r_ChunkID current + 1
      then map of_nat [unat (r_ChunkID current + 1) ..< unat (r_ChunkID next)] else [])
     @ gapsOf (next # rest)"
| "gapsOf _ = []"

definition checkForGaps :: "EncoderResult list \<Rightarrow> concat_error option" where
  "checkForGaps successful =
     (if length successful = 0 then None
      else let gaps = gapsOf successful
           in if length gaps > 0 then Some (MissingChunks gaps) else None)"

definition escapeQuotes :: "string \<Rightarrow> string" where
  "escapeQuotes p =
     concat (map (\<lambda>ch. if ch = CHR 0x27 then [CHR 0x27, CHR 0x5C, CHR 0x27, CHR 0x27] else [ch]) p)"

fun writeList :: "concat_env \<Rightarrow> EncoderResult list \<Rightarrow> concat_error option" where
  "writeList env [] = None"
| "writeList env (result # rest) =
     (case absPath env (r_OutputPath result) of
        None \<Rightarrow> Some (AbsPathFailed (r_OutputPath result))
      | Some p \<Rightarrow>
          if \<not> writeString env (''file '' @ [CHR 0x27] @ escapeQuotes p @ [CHR 0x27, CHR 0x0A])
          then Some WriteFailed
          else writeList env rest)"

definition createConcatFile :: "concat_env \<Rightarrow> EncoderResult list \<Rightarrow> concat_error + string" where
  "createConcatFile env successful =
     (case createTemp env of
        None \<Rightarrow> Inl CreateTempFailed
      | Some tmpFile \<Rightarrow>
          (case writeList env successful of
             Some e \<Rightarrow> Inl e
           | None \<Rightarrow> Inr tmpFile))"

definition runConcat :: "concat_env \<Rightarrow> string \<Rightarrow> string \<Rightarrow> concat_error option" where
  "runConcat env concatFilePath outputPath =
     (if \<not> ffmpeg env [''-f'', ''concat'', ''-safe'', ''0'', ''-i'', concatFilePath,
                         ''-c'', ''copy'', ''-y'', outputPath]
      then Some FfmpegError
      else if \<not> statAfter env outputPath then Some OutputNotCreated
      else None)"

text \<open>\<open>Concatenate\<close>; the first argument is the concatenator's \<open>strictMode\<close>.\<close>

definition Concatenate ::
  "concat_env \<Rightarrow> bool \<Rightarrow> EncoderResult list \<Rightarrow> string \<Rightarrow> concat_error option" where
  "Concatenate env strictMode results finalOutputPath =
     (case validateResults env results of
        Inl e \<Rightarrow> Some e
      | Inr (successful, failed) \<Rightarrow>
          if length failed > 0 \<and> strictMode then Some (StrictChunksFailed (length failed))
          else if length successful = 0 then Some NoSuccessfulChunks
          else
            (let gapErr = checkForGaps successful
             in if gapErr \<noteq> None \<and> strictMode then gapErr
                else
                  (case createConcatFile env successful of
                     Inl e \<Rightarrow> Some e
                   | Inr concatFilePath \<Rightarrow> runConcat env concatFilePath finalOutputPath)))"

text \<open>
  Notions used to state the finalizer's properties: a result is \<open>usable\<close> when it counts
  as successful for \<open>validateResults\<close>; ids \<open>form_1_to_k\<close> when they are exactly
  \<open>1, 2, ..., k\<close>.
\<close>

definition usable :: "concat_env \<Rightarrow> EncoderResult \<Rightarrow> bool" where
  "usable env r = (r_Success r \<and> r_OutputPath r \<noteq> [] \<and> stat env (r_OutputPath r))"

definition form_1_to_k :: "64 word list \<Rightarrow> bool" where
  "form_1_to_k ids = (ids = map of_nat [1 ..< Suc (length ids)])"

section \<open>Time formatter\<close>

text \<open>
  \<open>FormatSeconds\<close> is \<open>fmt.Sprintf("%02d:%02d:%05.2f", hours, minutes, secs)\<close>. The two
  verbs are modelled as the \<open>fmt\<close> package documents them: \<open>%02d\<close> prints an integer
  in decimal, zero-padded (after the sign) to width 2; \<open>%05.2f\<close> prints the value
  rounded to two decimals, zero-padded to width 5. The rounding is to the nearest
  hundredth of the exact value, a tie going to the even digit. Go's integer \<open>/\<close> and
  \<open>%\<close> truncate towards zero (\<open>sdiv\<close>, \<open>smod\<close>).  The real numbers stand for the
  finite \<open>float64\<close> values (zero for the positive zero): \<open>FormatSeconds\<close> computes what the
  code computes for seconds below \<open>2^53\<close> in absolute value, where \<open>int(seconds)\<close>,
  \<open>float64(hours*3600)\<close> and the two subtractions are exact.  Beyond that the code
  rounds, and \<open>int(seconds)\<close> is out of range from \<open>2^63\<close>; this is not in the model, and
  the properties below are stated within this bound.
\<close>

definition digit :: "nat \<Rightarrow> char" where
  "digit d = ''0123456789'' ! d"

function decimal :: "nat \<Rightarrow> string" where
  "decimal n = (if n < 10 then [digit n] else decimal (n div 10) @ [digit (n mod 10)])"
  by pat_completeness auto
termination
  by (relation "measure id") auto

declare decimal.simps [simp del]

definition zeroPad :: "nat \<Rightarrow> string \<Rightarrow> string" where
  "zeroPad w s = replicate (w - length s) (CHR ''0'') @ s"

definition fmt_02d :: "int \<Rightarrow> string" where
  "fmt_02d n =
     (if n < 0 then ''-'' @ zeroPad 1 (decimal (nat (- n))) else zeroPad 2 (decimal (nat n)))"

definition roundHalfEven :: "real \<Rightarrow> nat" where
  "roundHalfEven y =
     (let f = nat \<lfloor>y\<rfloor>; d = y - of_int \<lfloor>y\<rfloor>
      in if d < 1 / 2 then f else if d > 1 / 2 then f + 1
         else if even f then f else f + 1)"

definition fmt_05_2f :: "real \<Rightarrow> string" where
  "fmt_05_2f x =
     (let r = roundHalfEven (\<bar>x\<bar> * 100);
          body = decimal (r div 100) @ ''.'' @ zeroPad 2 (decimal (r mod 100))
      in if x < 0 then ''-'' @ zeroPad 4 body else zeroPad 5 body)"

definition FormatSeconds :: "real \<Rightarrow> string" where
  "FormatSeconds seconds =
     (let hours = trunc seconds sdiv 3600;
          minutes = (trunc seconds smod 3600) sdiv 60;
          secs = seconds - of_int (hours * 3600) - of_int (minutes * 60)
      in fmt_02d hours @ '':'' @ fmt_02d minutes @ '':'' @ fmt_05_2f secs)"

text \<open>
  To state what a rendered field shows: \<open>is_digits\<close> holds of a string of decimal
  digits, and \<open>num\<close> is the number it writes.
\<close>

definition is_digits :: "string \<Rightarrow> bool" where
  "is_digits s = (set s \<subseteq> set ''0123456789'')"

definition digitVal :: "char \<Rightarrow> nat" where
  "digitVal ch = length (takeWhile (\<lambda>c. c \<noteq> ch) ''0123456789'')"

definition num :: "string \<Rightarrow> nat" where
  "num s = foldl (\<lambda>a ch. 10 * a + digitVal ch) 0 s"

section \<open>Resource-constrained DAG orchestrator\<close>

subsection \<open>Tasks, constraints, admission\<close>

datatype TaskStatus = TaskPending | TaskReady | TaskRunning | TaskCompleted | TaskFailed

type_synonym ResourceType = string

text \<open>
  A task. Of its \<open>Command\<close> the orchestrator uses \<open>GetOutputPath()\<close>, a constant of the
  command, and \<open>Run()\<close>, whose outcome belongs to the environment. Times are
  milliseconds of a clock that never runs backwards.
\<close>

record Task =
  t_ID :: string
  t_CommandOutputPath :: string
  t_Dependencies :: "string list"
  t_Resource :: ResourceType
  t_Status :: TaskStatus
  t_Error :: "go_error option"
  t_Result :: "EncoderResult option"
  t_StartTime :: nat
  t_EndTime :: nat

record ResourceConstraint =
  rc_Type :: ResourceType
  rc_MaxSlots :: int

datatype dag_error =
    TaskAlreadyExists string
  | NonExistentDependency string string
  | CycleDetected

type_synonym task_map = "string \<rightharpoonup> Task"

text \<open>\<open>NewDAGOrchestrator\<close>: the constraint map; a later entry for a type replaces an earlier one.\<close>

definition constraintMap :: "ResourceConstraint list \<Rightarrow> (ResourceType \<rightharpoonup> ResourceConstraint)" where
  "constraintMap cs = map_of (rev (map (\<lambda>c. (rc_Type c, c)) cs))"

definition AddTask :: "task_map \<Rightarrow> Task \<Rightarrow> dag_error + task_map" where
  "AddTask ts task =
     (if ts (t_ID task) \<noteq> None then Inl (TaskAlreadyExists (t_ID task))
      else Inr (ts(t_ID task \<mapsto> task\<lparr>t_Status := TaskPending\<rparr>)))"

subsection \<open>Graph validation\<close>

text \<open>
  \<open>validateDAG\<close>. Go iterates a map in an unspecified order: each loop over \<open>o.tasks\<close>
  takes the order of keys as an argument. The closure \<open>hasCycle\<close> is recursive through
  the loop over the dependencies (\<open>cycleDeps\<close>); its state is the pair of maps
  \<open>visited\<close> and \<open>recStack\<close>, here the sets of keys mapped to true. The first argument
  bounds the depth of the recursion: \<open>None\<close> is a call that does not return (the bound
  is reached, or \<open>o.tasks[taskID]\<close> is nil and the call panics).
\<close>

type_synonym dfs_state = "string set \<times> string set"

fun hasCycle :: "nat \<Rightarrow> task_map \<Rightarrow> string \<Rightarrow> dfs_state \<Rightarrow> (bool \<times> dfs_state) option"
  and cycleDeps :: "nat \<Rightarrow> task_map \<Rightarrow> string list \<Rightarrow> string \<Rightarrow> dfs_state \<Rightarrow> (bool \<times> dfs_state) option"
  where
  "hasCycle 0 ts taskID st = None"
| "hasCycle (Suc n) ts taskID (visited, recStack) =
     (case ts taskID of
        None \<Rightarrow> None
      | Some task \<Rightarrow>
          cycleDeps n ts (t_Dependencies task) taskID (insert taskID visited, insert taskID recStack))"
| "cycleDeps n ts [] taskID (visited, recStack) = Some (False, (visited, recStack - {taskID}))"
| "cycleDeps n ts (depID # rest) taskID (visited, recStack) =
     (if depID \<notin> visited then
        (case hasCycle n ts depID (visited, recStack) of
           None \<Rightarrow> None
         | Some (True, st') \<Rightarrow> Some (True, st')
         | Some (False, st') \<Rightarrow> cycleDeps n ts rest taskID st')
      else if depID \<in> recStack then Some (True, (visited, recStack))
      else cycleDeps n ts rest taskID (visited, recStack))"

fun missingDependency :: "task_map \<Rightarrow> string \<Rightarrow> string list \<Rightarrow> dag_error option" where
  "missingDependency ts taskID [] = None"
| "missingDependency ts taskID (depID # rest) =
     (if ts depID = None then Some (NonExistentDependency taskID depID)
      else missingDependency ts taskID rest)"

fun checkDependencies :: "task_map \<Rightarrow> string list \<Rightarrow> dag_error option" where
  "checkDependencies ts [] = None"
| "checkDependencies ts (k # ks) =
     (case ts k of
        None \<Rightarrow> checkDependencies ts ks
      | Some task \<Rightarrow>
          (case missingDependency ts (t_ID task) (t_Dependencies task) of
             Some e \<Rightarrow> Some e
           | None \<Rightarrow> checkDependencies ts ks))"

fun checkCycles :: "nat \<Rightarrow> task_map \<Rightarrow> string list \<Rightarrow> dfs_state \<Rightarrow> dag_error option option" where
  "checkCycles n ts [] st = Some None"
| "checkCycles n ts (taskID # rest) (visited, recStack) =
     (if taskID \<notin> visited then
        (case hasCycle n ts taskID (visited, recStack) of
           None \<Rightarrow> None
         | Some (True, st') \<Rightarrow> Some (Some CycleDetected)
         | Some (False, st') \<Rightarrow> checkCycles n ts rest st')
      else checkCycles n ts rest (visited, recStack))"

text \<open>
  \<open>validateDAG n order1 order2 ts\<close>: \<open>Some None\<close> is the nil error, \<open>Some (Some e)\<close>
  the error \<open>e\<close>, \<open>None\<close> a call that does not return within depth \<open>n\<close>.
\<close>

definition validateDAG ::
  "nat \<Rightarrow> string list \<Rightarrow> string list \<Rightarrow> task_map \<Rightarrow> dag_error option option" where
  "validateDAG n order1 order2 ts =
     (case checkDependencies ts order1 of
        Some e \<Rightarrow> Some (Some e)
      | None \<Rightarrow> checkCycles n ts order2 ({}, {}))"

text \<open>An order in which a loop may visit the keys of the map.\<close>

definition iteration_order :: "task_map \<Rightarrow> string list \<Rightarrow> bool" where
  "iteration_order ts ks = (distinct ks \<and> set ks = dom ts)"

text \<open>The dependency edges of the admitted graph: \<open>(b, a)\<close> when task \<open>b\<close> lists \<open>a\<close>.\<close>

definition depends_on :: "task_map \<Rightarrow> (string \<times> string) set" where
  "depends_on ts = {(b, a). \<exists>task. ts b = Some task \<and> a \<in> set (t_Dependencies task)}"

subsection \<open>Scheduling: the functions run under the locks\<close>

fun dependenciesMetLoop :: "task_map \<Rightarrow> string list \<Rightarrow> bool" where
  "dependenciesMetLoop ts [] = True"
| "dependenciesMetLoop ts (depID # rest) =
     (case ts depID of
        None \<Rightarrow> False
      | Some depTask \<Rightarrow>
          if t_Status depTask \<noteq> TaskCompleted then False else dependenciesMetLoop ts rest)"

definition dependenciesMet :: "task_map \<Rightarrow> Task \<Rightarrow> bool" where
  "dependenciesMet ts task = dependenciesMetLoop ts (t_Dependencies task)"

text \<open>
  \<open>getReadyTasks\<close>, over an order of the keys: the updated tasks and the ready list (the
  tasks are pointers in the source, here their keys).
\<close>

fun getReadyTasks :: "string list \<Rightarrow> task_map \<Rightarrow> task_map \<times> string list" where
  "getReadyTasks [] ts = (ts, [])"
| "getReadyTasks (k # ks) ts =
     (case ts k of
        None \<Rightarrow> getReadyTasks ks ts
      | Some task \<Rightarrow>
          if t_Status task = TaskPending then
            (if dependenciesMet ts task then
               (let (ts', ready) = getReadyTasks ks (ts(k \<mapsto> task\<lparr>t_Status := TaskReady\<rparr>))
                in (ts', k # ready))
             else getReadyTasks ks ts)
          else if t_Status task = TaskReady then
            (let (ts', ready) = getReadyTasks ks ts in (ts', k # ready))
          else getReadyTasks ks ts)"

type_synonym slot_map = "ResourceType \<Rightarrow> int"

definition tryAcquireResource ::
  "(ResourceType \<rightharpoonup> ResourceConstraint) \<Rightarrow> slot_map \<Rightarrow> ResourceType \<Rightarrow> bool \<times> slot_map" where
  "tryAcquireResource constraints slots resourceType =
     (case constraints resourceType of
        None \<Rightarrow> (True, slots)
      | Some constraint \<Rightarrow>
          if slots resourceType < rc_MaxSlots constraint
          then (True, slots(resourceType := slots resourceType + 1))
          else (False, slots))"

definition releaseResource :: "slot_map \<Rightarrow> ResourceType \<Rightarrow> slot_map" where
  "releaseResource slots resourceType =
     (if slots resourceType > 0 then slots(resourceType := slots resourceType - 1) else slots)"

text \<open>
  \<open>hasFailedDependency\<close> recurses through the dependencies; as for \<open>hasCycle\<close> the first
  argument bounds the depth, and \<open>None\<close> is a call that does not return within it.
\<close>

fun hasFailedDependency :: "nat \<Rightarrow> task_map \<Rightarrow> Task \<Rightarrow> bool option"
  and failedDepsLoop :: "nat \<Rightarrow> task_map \<Rightarrow> string list \<Rightarrow> bool option"
  where
  "hasFailedDependency 0 ts task = None"
| "hasFailedDependency (Suc n) ts task = failedDepsLoop n ts (t_Dependencies task)"
| "failedDepsLoop n ts [] = Some False"
| "failedDepsLoop n ts (depID # rest) =
     (case ts depID of
        None \<Rightarrow> failedDepsLoop n ts rest
      | Some depTask \<Rightarrow>
          if t_Status depTask = TaskFailed then Some True
          else (case hasFailedDependency n ts depTask of
                  None \<Rightarrow> None
                | Some True \<Rightarrow> Some True
                | Some False \<Rightarrow> failedDepsLoop n ts rest))"

definition dependencyFailed :: go_error where
  "dependencyFailed = ''dependency failed''"

definition markDependencyFailed :: "Task \<Rightarrow> Task" where
  "markDependencyFailed task =
     task\<lparr>t_Status := TaskFailed,
          t_Error := Some dependencyFailed,
          t_Result := Some \<lparr>r_ChunkID = 0, r_OutputPath = t_CommandOutputPath task,
                            r_Success = False, r_Error = Some dependencyFailed\<rparr>\<rparr>"

text \<open>
  \<open>allTasksCompleteOrBlocked\<close>, over an order of the keys: the answer, the updated tasks,
  and the ids for which a goroutine was started to announce the failure on the completion
  channel.
\<close>

fun allTasksCompleteOrBlocked ::
  "nat \<Rightarrow> string list \<Rightarrow> task_map \<Rightarrow> string list \<Rightarrow> (bool \<times> task_map \<times> string list) option" where
  "allTasksCompleteOrBlocked n [] ts announced = Some (True, ts, announced)"
| "allTasksCompleteOrBlocked n (k # ks) ts announced =
     (case ts k of
        None \<Rightarrow> allTasksCompleteOrBlocked n ks ts announced
      | Some task \<Rightarrow>
          if t_Status task = TaskCompleted \<or> t_Status task = TaskFailed
          then allTasksCompleteOrBlocked n ks ts announced
          else if t_Status task = TaskPending \<or> t_Status task = TaskReady then
            (case hasFailedDependency n ts task of
               None \<Rightarrow> None
             | Some True \<Rightarrow>
                 allTasksCompleteOrBlocked n ks (ts(k \<mapsto> markDependencyFailed task))
                   (announced @ [t_ID task])
             | Some False \<Rightarrow> Some (False, ts, announced))
          else Some (False, ts, announced))"

text \<open>
  \<open>executeTask\<close> writes the task twice under the lock: when it starts, and when
  \<open>Run\<close> has returned \<open>err\<close>.
\<close>

definition markRunning :: "nat \<Rightarrow> Task \<Rightarrow> Task" where
  "markRunning t task = task\<lparr>t_Status := TaskRunning, t_StartTime := t\<rparr>"

definition recordOutcome :: "nat \<Rightarrow> go_error option \<Rightarrow> Task \<Rightarrow> Task" where
  "recordOutcome t err task =
     (if err \<noteq> None then
        task\<lparr>t_EndTime := t, t_Status := TaskFailed, t_Error := err,
             t_Result := Some \<lparr>r_ChunkID = 0, r_OutputPath = t_CommandOutputPath task,
                               r_Success = False, r_Error = err\<rparr>\<rparr>
      else
        task\<lparr>t_EndTime := t, t_Status := TaskCompleted,
             t_Result := Some \<lparr>r_ChunkID = 0, r_OutputPath = t_CommandOutputPath task,
                               r_Success = True, r_Error = None\<rparr>\<rparr>)"

subsection \<open>Execution as a transition system\<close>

text \<open>
  \<open>Execute\<close> runs three kinds of goroutines beside the caller: the completion handler,
  the scheduler, and one worker per dispatch (plus one short-lived goroutine per
  announced dependency failure). A state of the execution holds the shared data and
  where each goroutine stands; a step is one critical section, one channel operation,
  the return of a command, or time passing. \<open>trace\<close> records what happened, newest first:
  a dispatch (\<open>go o.executeTask(task)\<close>), the start and the end of a command with the
  times written to the task, the start of a goroutine that announces a dependency
  failure, and a send on the completion channel.
\<close>

datatype worker_phase = Spawned | InCommand | Recorded | Notified

record worker =
  w_task :: string
  w_resource :: ResourceType
  w_phase :: worker_phase

datatype scheduler_pc = AtCheck | AtGetReady | AtDispatch "string list" | Exited

datatype event =
    Dispatched string
  | Started string nat
  | Ended string bool nat
  | Announced string
  | Enqueued string

record orch_state =
  tasks :: task_map
  activeSlots :: slot_map
  workers :: "worker list"
  senders :: "string list"
  completeCh :: "string list"
  completedTasks :: nat
  exec_results :: "EncoderResult list"
  doneSent :: bool
  scheduler :: scheduler_pc
  now :: nat
  trace :: "event list"

record orch_config =
  cfg_constraints :: "ResourceType \<rightharpoonup> ResourceConstraint"
  cfg_totalTasks :: nat

definition completeCh_capacity :: nat where
  "completeCh_capacity = 100"

definition init_state :: "task_map \<Rightarrow> orch_state" where
  "init_state ts =
     \<lparr>tasks = ts, activeSlots = (\<lambda>r. 0), workers = [], senders = [], completeCh = [],
      completedTasks = 0, exec_results = [], doneSent = False, scheduler = AtCheck, now = 0,
      trace = []\<rparr>"

text \<open>
  The actions. \<open>SchedCheck n order\<close> is the call of \<open>allTasksCompleteOrBlocked\<close> that
  visits the map in \<open>order\<close> and returns within depth \<open>n\<close>; \<open>WorkerRunReturns i err\<close>
  is the return of the command of the worker at position \<open>i\<close> with \<open>err\<close>. An action
  that cannot happen in a state yields \<open>None\<close>.
\<close>

datatype action =
    Tick nat
  | SchedCheck nat "string list"
  | SchedGetReady "string list"
  | SchedDispatch
  | SchedSleep nat
  | WorkerStart nat
  | WorkerRunReturns nat "go_error option"
  | WorkerNotify nat
  | WorkerRelease nat
  | SenderNotify nat
  | HandlerReceive

fun fire :: "orch_config \<Rightarrow> action \<Rightarrow> orch_state \<Rightarrow> orch_state option" where
  "fire cfg (Tick d) s = (if 0 < d then Some (s\<lparr>now := now s + d\<rparr>) else None)"
| "fire cfg (SchedCheck n order) s =
     (if scheduler s = AtCheck \<and> iteration_order (tasks s) order then
        (case allTasksCompleteOrBlocked n order (tasks s) [] of
           None \<Rightarrow> None
         | Some (done, ts', announced) \<Rightarrow>
             Some (s\<lparr>tasks := ts', senders := senders s @ announced,
                      trace := rev (map Announced announced) @ trace s,
                      scheduler := (if done then Exited else AtGetReady)\<rparr>))
      else None)"
| "fire cfg (SchedGetReady order) s =
     (if scheduler s = AtGetReady \<and> iteration_order (tasks s) order then
        (let (ts', ready) = getReadyTasks order (tasks s)
         in Some (s\<lparr>tasks := ts', scheduler := AtDispatch ready\<rparr>))
      else None)"
| "fire cfg SchedDispatch s =
     (case scheduler s of
        AtDispatch (k # rest) \<Rightarrow>
          (case tasks s k of
             None \<Rightarrow> None
           | Some task \<Rightarrow>
               (let (ok, slots') =
                      tryAcquireResource (cfg_constraints cfg) (activeSlots s) (t_Resource task)
                in if ok then
                     Some (s\<lparr>activeSlots := slots',
                              workers := workers s @
                                [\<lparr>w_task = k, w_resource = t_Resource task, w_phase = Spawned\<rparr>],
                              trace := Dispatched k # trace s,
                              scheduler := AtDispatch rest\<rparr>)
                   else Some (s\<lparr>activeSlots := slots', scheduler := AtDispatch rest\<rparr>)))
      | _ \<Rightarrow> None)"
| "fire cfg (SchedSleep d) s =
     (if scheduler s = AtDispatch [] \<and> 10 \<le> d
      then Some (s\<lparr>scheduler := AtCheck, now := now s + d\<rparr>) else None)"
| "fire cfg (WorkerStart i) s =
     (if i < length (workers s) \<and> w_phase (workers s ! i) = Spawned then
        (case tasks s (w_task (workers s ! i)) of
           None \<Rightarrow> None
         | Some task \<Rightarrow>
             Some (s\<lparr>tasks := (tasks s)(w_task (workers s ! i) \<mapsto> markRunning (now s) task),
                      workers := (workers s)[i := (workers s ! i)\<lparr>w_phase := InCommand\<rparr>],
                      trace := Started (w_task (workers s ! i)) (now s) # trace s\<rparr>))
      else None)"
| "fire cfg (WorkerRunReturns i err) s =
     (if i < length (workers s) \<and> w_phase (workers s ! i) = InCommand then
        (case tasks s (w_task (workers s ! i)) of
           None \<Rightarrow> None
         | Some task \<Rightarrow>
             Some (s\<lparr>tasks := (tasks s)(w_task (workers s ! i) \<mapsto> recordOutcome (now s) err task),
                      workers := (workers s)[i := (workers s ! i)\<lparr>w_phase := Recorded\<rparr>],
                      trace := Ended (w_task (workers s ! i)) (err = None) (now s) # trace s\<rparr>))
      else None)"
| "fire cfg (WorkerNotify i) s =
     (if i < length (workers s) \<and> w_phase (workers s ! i) = Recorded
         \<and> length (completeCh s) < completeCh_capacity
      then Some (s\<lparr>completeCh := completeCh s @ [w_task (workers s ! i)],
                    workers := (workers s)[i := (workers s ! i)\<lparr>w_phase := Notified\<rparr>],
                    trace := Enqueued (w_task (workers s ! i)) # trace s\<rparr>)
      else None)"
| "fire cfg (WorkerRelease i) s =
     (if i < length (workers s) \<and> w_phase (workers s ! i) = Notified
      then Some (s\<lparr>activeSlots := releaseResource (activeSlots s) (w_resource (workers s ! i)),
                    workers := take i (workers s) @ drop (Suc i) (workers s)\<rparr>)
      else None)"
| "fire cfg (SenderNotify i) s =
     (if i < length (senders s) \<and> length (completeCh s) < completeCh_capacity
      then Some (s\<lparr>completeCh := completeCh s @ [senders s ! i],
                    senders := take i (senders s) @ drop (Suc i) (senders s),
                    trace := Enqueued (senders s ! i) # trace s\<rparr>)
      else None)"
| "fire cfg HandlerReceive s =
     (if doneSent s then None
      else case completeCh s of
        [] \<Rightarrow> None
      | k # rest \<Rightarrow>
          (case tasks s k of
             None \<Rightarrow> None
           | Some task \<Rightarrow>
               Some (s\<lparr>completeCh := rest,
                        completedTasks := completedTasks s + 1,
                        exec_results := (case t_Result task of
                                           None \<Rightarrow> exec_results s
                                         | Some r \<Rightarrow> exec_results s @ [r]),
                        doneSent := (completedTasks s + 1 = cfg_totalTasks cfg)\<rparr>)))"

definition step :: "orch_config \<Rightarrow> orch_state \<Rightarrow> orch_state \<Rightarrow> bool" where
  "step cfg s s' = (\<exists>a. fire cfg a s = Some s')"

fun run :: "orch_config \<Rightarrow> action list \<Rightarrow> orch_state \<Rightarrow> orch_state option" where
  "run cfg [] s = Some s"
| "run cfg (a # as) s = (case fire cfg a s of None \<Rightarrow> None | Some s' \<Rightarrow> run cfg as s')"

definition reachable :: "orch_config \<Rightarrow> orch_state \<Rightarrow> orch_state \<Rightarrow> bool" where
  "reachable cfg s0 s = (step cfg)\<^sup>*\<^sup>* s0 s"

text \<open>
  \<open>Execute\<close> returns once the handler has signalled \<open>doneCh\<close> and the scheduler has
  returned (\<open>wg.Wait()\<close>).
\<close>

definition returned :: "orch_state \<Rightarrow> bool" where
  "returned s = (doneSent s \<and> scheduler s = Exited)"

text \<open>
  \<open>Execute\<close>, from the admitted tasks \<open>ts\<close>: what it returns (the results, the error)
  and the state it leaves. It returns the validation error at once, or runs the
  execution from \<open>init_state\<close> until it has returned.
\<close>

inductive Execute ::
  "orch_config \<Rightarrow> task_map \<Rightarrow> (EncoderResult list option \<times> dag_error option) \<times> orch_state \<Rightarrow> bool"
  for cfg :: orch_config and ts :: task_map where
  invalid:
    "iteration_order ts order1 \<Longrightarrow> iteration_order ts order2 \<Longrightarrow>
     validateDAG n order1 order2 ts = Some (Some e) \<Longrightarrow>
     Execute cfg ts ((None, Some e), init_state ts)"
| completed:
    "iteration_order ts order1 \<Longrightarrow> iteration_order ts order2 \<Longrightarrow>
     validateDAG n order1 order2 ts = Some None \<Longrightarrow>
     cfg_totalTasks cfg = card (dom ts) \<Longrightarrow>
     reachable cfg (init_state ts) s \<Longrightarrow> returned s \<Longrightarrow>
     Execute cfg ts ((Some (exec_results s), None), s)"

subsection \<open>Notions for the properties of the validation\<close>

text \<open>
  \<open>closed_graph\<close>: every dependency id refers to an admitted task. \<open>dfs_inv\<close> is the
  invariant of the traversal: the tasks left (visited, no longer on the stack) have all
  their dependencies among them and lie on no cycle.
\<close>

definition closed_graph :: "task_map \<Rightarrow> bool" where
  "closed_graph ts = (\<forall>b a. (b, a) \<in> depends_on ts \<longrightarrow> ts a \<noteq> None)"

definition dfs_inv :: "task_map \<Rightarrow> dfs_state \<Rightarrow> bool" where
  "dfs_inv ts st =
     (case st of (visited, recStack) \<Rightarrow>
        recStack \<subseteq> visited
      \<and> (\<forall>b \<in> visited - recStack. \<forall>a. (b, a) \<in> depends_on ts \<longrightarrow> a \<in> visited - recStack)
      \<and> (\<forall>b \<in> visited - recStack. (b, b) \<notin> (depends_on ts)\<^sup>+))"

subsection \<open>Example inputs\<close>

text \<open>
  Inputs for the concrete instances below: a task as \<open>AddTask\<close> admits it, running on
  the CPU, and the configuration with two CPU slots.
\<close>

definition cpuTask :: "string \<Rightarrow> string list \<Rightarrow> Task" where
  "cpuTask k deps =
     \<lparr>t_ID = k, t_CommandOutputPath = ''/tmp/'' @ k @ ''.mp4'', t_Dependencies = deps,
      t_Resource = ''cpu'', t_Status = TaskPending, t_Error = None, t_Result = None,
      t_StartTime = 0, t_EndTime = 0\<rparr>"

definition twoCpus :: "nat \<Rightarrow> orch_config" where
  "twoCpus n =
     \<lparr>cfg_constraints = constraintMap [\<lparr>rc_Type = ''cpu'', rc_MaxSlots = 2\<rparr>],
      cfg_totalTasks = n\<rparr>"

subsection \<open>Notions for the properties of an execution\<close>

text \<open>
  \<open>holders s r\<close> is the number of workers that hold a slot of resource \<open>r\<close>: dispatched
  and not yet released. \<open>completed_once s k\<close>: the command of task \<open>k\<close> has returned
  without error at least once; \<open>was_dispatched s k\<close>: a worker was started for it.
\<close>

definition holders :: "orch_state \<Rightarrow> ResourceType \<Rightarrow> nat" where
  "holders s r = count_list (map w_resource (workers s)) r"

definition completed_once :: "orch_state \<Rightarrow> string \<Rightarrow> bool" where
  "completed_once s k = (\<exists>t. Ended k True t \<in> set (trace s))"

definition was_dispatched :: "orch_state \<Rightarrow> string \<Rightarrow> bool" where
  "was_dispatched s k = (Dispatched k \<in> set (trace s))"

definition deps_done :: "orch_state \<Rightarrow> Task \<Rightarrow> bool" where
  "deps_done s task = (\<forall>d \<in> set (t_Dependencies task). completed_once s d)"

text \<open>The orchestrator as \<open>AddTask\<close> builds it: every task Pending, stored under its id.\<close>

definition admitted :: "task_map \<Rightarrow> bool" where
  "admitted ts = (\<forall>k task. ts k = Some task \<longrightarrow> t_Status task = TaskPending \<and> t_ID task = k)"

text \<open>The invariant of the slot accounting.\<close>

definition slots_inv :: "orch_config \<Rightarrow> orch_state \<Rightarrow> bool" where
  "slots_inv cfg s =
     (\<forall>r. case cfg_constraints cfg r of
            None \<Rightarrow> activeSlots s r = 0
          | Some c \<Rightarrow> activeSlots s r = int (holders s r)
                      \<and> activeSlots s r \<le> max 0 (rc_MaxSlots c))"

text \<open>
  \<open>deps_completed\<close> is what \<open>dependenciesMet\<close> computes. \<open>same_graph\<close>: two task maps
  differ at most in the mutable fields (status, error, result, times).
\<close>

definition deps_completed :: "task_map \<Rightarrow> Task \<Rightarrow> bool" where
  "deps_completed ts task =
     (\<forall>d \<in> set (t_Dependencies task). \<exists>dt. ts d = Some dt \<and> t_Status dt = TaskCompleted)"

definition static_part :: "Task \<Rightarrow> string \<times> string list \<times> ResourceType \<times> string" where
  "static_part task = (t_ID task, t_Dependencies task, t_Resource task, t_CommandOutputPath task)"

definition same_graph :: "task_map \<Rightarrow> task_map \<Rightarrow> bool" where
  "same_graph ts ts' = (\<forall>k. map_option static_part (ts' k) = map_option static_part (ts k))"

fun event_time :: "event \<Rightarrow> nat" where
  "event_time (Started k t) = t"
| "event_time (Ended k ok t) = t"
| "event_time _ = 0"

text \<open>
  \<open>starts_ok ts tr\<close>: in the trace \<open>tr\<close> (newest first) every start of a command comes
  after a successful end of each dependency of its task, whose time is not later.
\<close>

fun starts_ok :: "task_map \<Rightarrow> event list \<Rightarrow> bool" where
  "starts_ok ts [] = True"
| "starts_ok ts (e # older) =
     ((case e of
         Started b t \<Rightarrow>
           (\<forall>tb. ts b = Some tb \<longrightarrow>
              (\<forall>a \<in> set (t_Dependencies tb). \<exists>t' \<le> t. Ended a True t' \<in> set older))
       | _ \<Rightarrow> True)
      \<and> starts_ok ts older)"

definition order_inv :: "orch_state \<Rightarrow> bool" where
  "order_inv s =
     ((\<forall>e \<in> set (trace s). event_time e \<le> now s)
    \<and> (\<forall>k t. tasks s k = Some t \<and> t_Status t = TaskCompleted \<longrightarrow> completed_once s k)
    \<and> (\<forall>k t. tasks s k = Some t \<and> t_Status t = TaskReady \<longrightarrow> deps_done s t)
    \<and> (\<forall>ready. scheduler s = AtDispatch ready \<longrightarrow>
          (\<forall>k \<in> set ready. \<exists>t. tasks s k = Some t \<and> deps_done s t))
    \<and> (\<forall>w \<in> set (workers s). \<exists>t. tasks s (w_task w) = Some t \<and> deps_done s t)
    \<and> starts_ok (tasks s) (trace s))"

definition syntheticResult :: "Task \<Rightarrow> EncoderResult" where
  "syntheticResult task =
     \<lparr>r_ChunkID = 0, r_OutputPath = t_CommandOutputPath task,
      r_Success = False, r_Error = Some dependencyFailed\<rparr>"

text \<open>
  A task for which no worker was ever started is still waiting, or was marked Failed for a
  failed dependency, with the synthetic result and an announcement.
\<close>

definition waiting_or_blocked :: "orch_state \<Rightarrow> string \<Rightarrow> Task \<Rightarrow> bool" where
  "waiting_or_blocked s k t =
     (t_ID t = k
      \<and> (t_Status t = TaskPending \<or> t_Status t = TaskReady
         \<or> (t_Status t = TaskFailed \<and> t_Error t = Some dependencyFailed
             \<and> t_Result t = Some (syntheticResult t) \<and> Announced k \<in> set (trace s))))"

definition blocked_inv :: "orch_state \<Rightarrow> bool" where
  "blocked_inv s =
     ((\<forall>k. (\<exists>t. Started k t \<in> set (trace s)) \<or> (\<exists>ok t. Ended k ok t \<in> set (trace s))
            \<longrightarrow> was_dispatched s k)
    \<and> (\<forall>k. was_dispatched s k \<longrightarrow> (\<exists>t. tasks s k = Some t \<and> deps_done s t))
    \<and> (\<forall>w \<in> set (workers s). was_dispatched s (w_task w))
    \<and> (\<forall>k t. tasks s k = Some t \<and> \<not> was_dispatched s k \<longrightarrow> waiting_or_blocked s k t)
    \<and> (scheduler s = Exited \<longrightarrow>
          (\<forall>k t. tasks s k = Some t \<and> \<not> was_dispatched s k \<longrightarrow> t_Status t = TaskFailed))
    \<and> (\<forall>k. Announced k \<in> set (trace s) \<longrightarrow> k \<in> set (senders s) \<or> Enqueued k \<in> set (trace s)))"


text \<open>
  The state of an orchestrator without tasks: nothing is running, nothing is queued on the
  completion channel, and the handler has not signalled the end.
\<close>

definition idle_inv :: "orch_state \<Rightarrow> bool" where
  "idle_inv s = (tasks s = Map.empty \<and> workers s = [] \<and> senders s = [] \<and> completeCh s = []
                 \<and> \<not> doneSent s)"

text \<open>
  Counting the runs of a task: how often it was dispatched, how many of its commands have
  ended, and how many of its workers have not yet recorded an outcome.  A task that was
  dispatched at most once and whose command succeeded stays Completed.
\<close>

fun is_end :: "string \<Rightarrow> event \<Rightarrow> bool" where
  "is_end k (Ended k' ok t) = (k' = k)"
| "is_end k _ = False"

definition dispatches :: "orch_state \<Rightarrow> string \<Rightarrow> nat" where
  "dispatches s k = count_list (trace s) (Dispatched k)"

definition ends :: "orch_state \<Rightarrow> string \<Rightarrow> nat" where
  "ends s k = length (filter (is_end k) (trace s))"

definition in_flight :: "string \<Rightarrow> worker \<Rightarrow> bool" where
  "in_flight k w = (w_task w = k \<and> (w_phase w = Spawned \<or> w_phase w = InCommand))"

definition active :: "orch_state \<Rightarrow> string \<Rightarrow> nat" where
  "active s k = length (filter (in_flight k) (workers s))"

definition once_inv :: "orch_state \<Rightarrow> bool" where
  "once_inv s =
     ((\<forall>k. ends s k + active s k \<le> dispatches s k)
    \<and> (\<forall>k. dispatches s k \<le> 1 \<and> completed_once s k \<longrightarrow>
          (\<exists>t. tasks s k = Some t \<and> t_Status t = TaskCompleted)))"

text \<open>
  The time fields of a task and the logged events: the start time of a task is the time of
  one of its logged starts, and the end time of a task that was dispatched at most once is
  the time of its logged end.
\<close>

definition fields_inv :: "orch_state \<Rightarrow> bool" where
  "fields_inv s =
     ((\<forall>b tb t. tasks s b = Some tb \<and> Started b t \<in> set (trace s) \<longrightarrow>
          Started b (t_StartTime tb) \<in> set (trace s))
    \<and> (\<forall>a ta ok t. tasks s a = Some ta \<and> dispatches s a \<le> 1 \<and> Ended a ok t \<in> set (trace s) \<longrightarrow>
          t_EndTime ta = t))"
section \<open>Properties of the chunk planner\<close>



lemma chunkCountOf_ceiling:
  assumes "0 < D" "0 < W"
  shows "chunkCountOf D W = \<lceil>D / W\<rceil>"
proof -
  have nn: "0 < D / W" using assms by simp
  have t: "trunc (D / W) = \<lfloor>D / W\<rfloor>" using nn by (simp add: trunc_def)
  have pos: "\<lceil>D / W\<rceil> \<noteq> 0" using nn by linarith
  define k where "k = (if D > of_int \<lfloor>D / W\<rfloor> * W then \<lfloor>D / W\<rfloor> + 1 else \<lfloor>D / W\<rfloor>)"
  have unf: "chunkCountOf D W = (if k = 0 then 1 else k)"
    unfolding chunkCountOf_def Let_def t k_def by simp
  have "k = \<lceil>D / W\<rceil>"
  proof (cases "D > of_int \<lfloor>D / W\<rfloor> * W")
    case True
    then have "of_int \<lfloor>D / W\<rfloor> < D / W" using assms by (simp add: pos_less_divide_eq)
    then have "\<lceil>D / W\<rceil> = \<lfloor>D / W\<rfloor> + 1" by linarith
    then show ?thesis using True by (simp add: k_def)
  next
    case False
    then have "D / W \<le> of_int \<lfloor>D / W\<rfloor>" using assms by (simp add: pos_divide_le_eq)
    then have "\<lceil>D / W\<rceil> = \<lfloor>D / W\<rfloor>" by linarith
    then show ?thesis using False by (simp add: k_def)
  qed
  then show ?thesis using unf pos by simp
qed

lemma fixedChunk_valid:
  assumes "\<not> TrimSpace_empty src" "0 < W" "0 \<le> j" "of_int j * W < D"
  shows "Chunk_Validate (fixedChunk src D W j) = None"
proof -
  have a: "0 \<le> of_int j * W" using assms by simp
  have b: "of_int j * W < of_int j * W + W" using assms by simp
  have "c_EndTime (fixedChunk src D W j) > c_StartTime (fixedChunk src D W j)"
    using assms(4) b by (simp add: fixedChunk_def)
  moreover have "c_StartTime (fixedChunk src D W j) \<ge> 0" using a by (simp add: fixedChunk_def)
  moreover have "c_SourcePath (fixedChunk src D W j) = src" by (simp add: fixedChunk_def)
  ultimately show ?thesis using assms(1) by (simp add: Chunk_Validate_def)
qed

lemma fixedLoop_ok:
  assumes "\<not> TrimSpace_empty src" "0 < W" "0 \<le> i" "of_int (n - 1) * W < D"
  shows "fixedLoop src D W n i cs = Inr (cs @ map (fixedChunk src D W) [i..n - 1])"
  using assms
proof (induction src D W n i cs rule: fixedLoop.induct)
  case (1 src D W n i cs)
  show ?case
  proof (cases "i < n")
    case False
    then show ?thesis by (simp add: fixedLoop.simps)
  next
    case True
    have "of_int i * W \<le> of_int (n - 1) * W" using True 1(3) by (simp add: mult_right_mono)
    then have lt: "of_int i * W < D" using 1(5) by linarith
    have v: "Chunk_Validate (fixedChunk src D W i) = None"
      using fixedChunk_valid[OF 1(2) 1(3) 1(4) lt] .
    have up: "[i..n - 1] = i # [i + 1..n - 1]" using True by (simp add: upto_rec1)
    have ih: "fixedLoop src D W n (i + 1) (cs @ [fixedChunk src D W i])
         = Inr ((cs @ [fixedChunk src D W i]) @ map (fixedChunk src D W) [i + 1..n - 1])"
      using "1.IH"[OF True refl refl refl refl _ 1(2) 1(3) _ 1(5)] v 1(4)
      by (simp add: fixedChunk_def)
    show ?thesis
      using True v ih up by (subst fixedLoop.simps) (simp add: fixedChunk_def Let_def)
  qed
qed


lemma ceiling_pred_lt:
  assumes "0 < D" "0 < (W::real)"
  shows "of_int (\<lceil>D / W\<rceil> - 1) * W < D"
proof -
  have "of_int (\<lceil>D / W\<rceil> - 1) < D / W" by linarith
  then show ?thesis using assms by (simp add: pos_less_divide_eq)
qed

lemma createFixedDurationChunks_eq:
  assumes "0 < D" "1 \<le> unat (chunkDuration c)" "\<not> TrimSpace_empty (sourcePath c)"
  shows "createFixedDurationChunks c D
    = Inr (map (fixedChunk (sourcePath c) D (real (unat (chunkDuration c))))
             [0..\<lceil>D / real (unat (chunkDuration c))\<rceil> - 1])"
proof -
  define W where "W = real (unat (chunkDuration c))"
  have "0 < unat (chunkDuration c)" using assms(2) by simp
  then have W: "0 < W" unfolding W_def by (rule of_nat_0_less_iff[THEN iffD2])
  have "createFixedDurationChunks c D
      = fixedLoop (sourcePath c) D W (chunkCountOf D W) 0 []"
    using assms(1) unfolding createFixedDurationChunks_def Let_def W_def by simp
  also have "\<dots> = fixedLoop (sourcePath c) D W \<lceil>D / W\<rceil> 0 []"
    by (simp only: chunkCountOf_ceiling[OF assms(1) W])
  also have "\<dots> = Inr ([] @ map (fixedChunk (sourcePath c) D W) [0..\<lceil>D / W\<rceil> - 1])"
    by (rule fixedLoop_ok[OF assms(3) W _ ceiling_pred_lt[OF assms(1) W]]) simp
  finally show ?thesis unfolding W_def by simp
qed



lemma chaptersLoop_Inr:
  assumes "chaptersLoop scanf src i chapters acc = Inr chunks"
  shows "\<exists>new. chunks = acc @ new \<and> length new = length chapters
          \<and> (\<forall>k < length new.
                Chunk_Validate (new ! k) = None
              \<and> scanf (ch_StartTime (chapters ! k)) = Some (c_StartTime (new ! k))
              \<and> scanf (ch_EndTime (chapters ! k)) = Some (c_EndTime (new ! k))
              \<and> c_ChunkID (new ! k) = of_nat (i + k + 1)
              \<and> c_SourcePath (new ! k) = src)"
  using assms
proof (induction chapters arbitrary: i acc)
  case Nil
  then show ?case by simp
next
  case (Cons ch0 rest)
  from Cons.prems obtain s e where
    s: "scanf (ch_StartTime ch0) = Some s" and e: "scanf (ch_EndTime ch0) = Some e"
    by (auto split: option.splits)
  define chunk where "chunk = \<lparr>c_ChunkID = of_nat (i + 1), c_StartTime = s,
                              c_EndTime = e, c_SourcePath = src\<rparr>"
  from Cons.prems s e have v: "Chunk_Validate chunk = None"
    and rec: "chaptersLoop scanf src (i + 1) rest (acc @ [chunk]) = Inr chunks"
    by (auto simp: chunk_def Let_def split: option.splits)
  from Cons.IH[OF rec] obtain new where
    new: "chunks = (acc @ [chunk]) @ new" "length new = length rest"
      "\<forall>k < length new.
                Chunk_Validate (new ! k) = None
              \<and> scanf (ch_StartTime (rest ! k)) = Some (c_StartTime (new ! k))
              \<and> scanf (ch_EndTime (rest ! k)) = Some (c_EndTime (new ! k))
              \<and> c_ChunkID (new ! k) = of_nat (i + 1 + k + 1)
              \<and> c_SourcePath (new ! k) = src"
    by blast
  have "\<forall>k < length (chunk # new).
                Chunk_Validate ((chunk # new) ! k) = None
              \<and> scanf (ch_StartTime ((ch0 # rest) ! k)) = Some (c_StartTime ((chunk # new) ! k))
              \<and> scanf (ch_EndTime ((ch0 # rest) ! k)) = Some (c_EndTime ((chunk # new) ! k))
              \<and> c_ChunkID ((chunk # new) ! k) = of_nat (i + k + 1)
              \<and> c_SourcePath ((chunk # new) ! k) = src"
  proof (intro allI impI)
    fix k assume k: "k < length (chunk # new)"
    show "Chunk_Validate ((chunk # new) ! k) = None
              \<and> scanf (ch_StartTime ((ch0 # rest) ! k)) = Some (c_StartTime ((chunk # new) ! k))
              \<and> scanf (ch_EndTime ((ch0 # rest) ! k)) = Some (c_EndTime ((chunk # new) ! k))
              \<and> c_ChunkID ((chunk # new) ! k) = of_nat (i + k + 1)
              \<and> c_SourcePath ((chunk # new) ! k) = src"
    proof (cases k)
      case 0
      then show ?thesis using v s e by (simp add: chunk_def)
    next
      case (Suc k')
      then have "k' < length new" using k by simp
      then show ?thesis using new(3) Suc by simp
    qed
  qed
  then show ?case using new(1,2) by (intro exI[of _ "chunk # new"]) simp
qed


lemma chaptersLoop_fatal:
  assumes "chapter \<in> set chapters" "entry_fails scanf src chapter"
  shows "\<exists>err. chaptersLoop scanf src i chapters acc = Inl err"
  using assms
proof (induction chapters arbitrary: i acc)
  case Nil
  then show ?case by simp
next
  case (Cons ch rest)
  show ?case
  proof (cases "entry_fails scanf src ch")
    case True
    then show ?thesis
      by (auto simp: entry_fails_def Chunk_Validate_def Let_def split: option.splits)
  next
    case False
    then have "chapter \<in> set rest" using Cons.prems by auto
    from Cons.IH[OF this Cons.prems(2)] show ?thesis
      by (auto simp: Let_def split: option.splits)
  qed
qed


subsection \<open>C9: the fixed-width plan\<close>

text \<open>
  Claim C9. For a source with duration \<open>D > 0\<close> and chunk width \<open>W\<close> (at least one
  second, and a source path that is not blank, so that every chunk validates),
  \<open>createFixedDurationChunks\<close> returns exactly \<open>\<lceil>D / W\<rceil>\<close> chunks; the chunk at
  position \<open>i\<close> (from 0) has id \<open>i + 1\<close>, starts at \<open>i * W\<close> and ends at
  \<open>(i + 1) * W\<close>, except the last one, which ends at \<open>D\<close> itself.  This is stated
  for the durations on which the real arithmetic of the model is the \<open>float64\<close> and \<open>int\<close>
  arithmetic of the code: \<open>D\<close> below \<open>2^53\<close>, and a chunk count below \<open>2^31\<close>, which an
  \<open>int\<close> holds on every platform and for which \<open>make\<close> accepts the capacity.
\<close>

theorem fixed_plan_chunks:
  assumes "0 < D" "1 \<le> unat (chunkDuration c)" "\<not> TrimSpace_empty (sourcePath c)"
    and "D < 2 ^ 53" "\<lceil>D / real (unat (chunkDuration c))\<rceil> < 2 ^ 31"
  shows "\<exists>chunks. createFixedDurationChunks c D = Inr chunks
     \<and> int (length chunks) = \<lceil>D / real (unat (chunkDuration c))\<rceil>
     \<and> (\<forall>i < length chunks.
           c_ChunkID (chunks ! i) = of_nat (i + 1)
         \<and> c_StartTime (chunks ! i) = real i * real (unat (chunkDuration c))
         \<and> c_EndTime (chunks ! i) =
             (if i + 1 = length chunks then D else real (i + 1) * real (unat (chunkDuration c)))
         \<and> c_SourcePath (chunks ! i) = sourcePath c)"
proof -
  define W where "W = real (unat (chunkDuration c))"
  define N where "N = \<lceil>D / W\<rceil>"
  have "0 < unat (chunkDuration c)" using assms(2) by simp
  then have W: "0 < W" unfolding W_def by (rule of_nat_0_less_iff[THEN iffD2])
  have Npos: "0 < N" using assms(1) W by (simp add: N_def)
  define chunks where "chunks = map (fixedChunk (sourcePath c) D W) [0..N - 1]"
  have eq: "createFixedDurationChunks c D = Inr chunks"
    using createFixedDurationChunks_eq[OF assms(1-3)] by (simp add: chunks_def W_def N_def)
  have len: "length chunks = nat N" by (simp add: chunks_def)
  have nth: "chunks ! i = fixedChunk (sourcePath c) D W (int i)" if "i < length chunks" for i
    using that by (simp add: chunks_def)
  have ends: "c_EndTime (fixedChunk (sourcePath c) D W (int i))
       = (if i + 1 = length chunks then D else real (i + 1) * W)" if "i < length chunks" for i
  proof (cases "i + 1 = length chunks")
    case True
    then have "int i + 1 = N" using len Npos by linarith
    then have "D / W \<le> of_int (int i + 1)" unfolding N_def by linarith
    then have "D \<le> (real i + 1) * W" using W by (simp add: pos_divide_le_eq)
    then show ?thesis using True by (auto simp: fixedChunk_def algebra_simps)
  next
    case False
    then have "int i + 1 \<le> N - 1" using that len by linarith
    then have "of_int (int i + 1) * W \<le> of_int (N - 1) * W"
      using W by (intro mult_right_mono) simp_all
    moreover have "of_int (N - 1) * W < D"
      unfolding N_def using ceiling_pred_lt[OF assms(1) W] .
    ultimately have "(real i + 1) * W < D" by simp
    then show ?thesis using False by (auto simp: fixedChunk_def algebra_simps)
  qed
  have "\<forall>i < length chunks.
           c_ChunkID (chunks ! i) = of_nat (i + 1)
         \<and> c_StartTime (chunks ! i) = real i * W
         \<and> c_EndTime (chunks ! i) = (if i + 1 = length chunks then D else real (i + 1) * W)
         \<and> c_SourcePath (chunks ! i) = sourcePath c"
  proof (intro allI impI conjI)
    fix i assume i: "i < length chunks"
    show "c_ChunkID (chunks ! i) = of_nat (i + 1)"
      using nth[OF i] by (simp add: fixedChunk_def)
    show "c_StartTime (chunks ! i) = real i * W"
      using nth[OF i] by (simp add: fixedChunk_def)
    show "c_EndTime (chunks ! i) = (if i + 1 = length chunks then D else real (i + 1) * W)"
      using nth[OF i] ends[OF i] by simp
    show "c_SourcePath (chunks ! i) = sourcePath c"
      using nth[OF i] by (simp add: fixedChunk_def)
  qed
  moreover have "int (length chunks) = N" using len Npos by simp
  ultimately show ?thesis using eq unfolding W_def N_def by blast
qed


theorem fixed_plan_chunks_witness:
  "0 < (25::real)
   \<and> 1 \<le> unat (chunkDuration \<lparr>sourcePath = ''/in.mp4'', chunkDuration = 10, useChapters = False\<rparr>)
   \<and> \<not> TrimSpace_empty (sourcePath \<lparr>sourcePath = ''/in.mp4'', chunkDuration = 10, useChapters = False\<rparr>)
   \<and> (25::real) < 2 ^ 53
   \<and> \<lceil>(25::real) / real (unat (chunkDuration
          \<lparr>sourcePath = ''/in.mp4'', chunkDuration = 10, useChapters = False\<rparr>))\<rceil> < 2 ^ 31
   \<and> (\<exists>chunks.
        createFixedDurationChunks
          \<lparr>sourcePath = ''/in.mp4'', chunkDuration = 10, useChapters = False\<rparr> 25 = Inr chunks
      \<and> length chunks = 3
      \<and> c_EndTime (chunks ! 2) = 25)"
proof -
  let ?c = "\<lparr>sourcePath = ''/in.mp4'', chunkDuration = 10, useChapters = False\<rparr>"
  have h1: "0 < (25::real)" by simp
  have h2: "1 \<le> unat (chunkDuration ?c)" by simp
  have h3: "\<not> TrimSpace_empty (sourcePath ?c)"
    by (simp add: TrimSpace_empty_def ascii_space_def)
  have c: "\<lceil>(25::real) / real (unat (chunkDuration ?c))\<rceil> = 3"
    by (simp add: ceiling_eq_iff)
  have h4: "(25::real) < 2 ^ 53" by simp
  have h5: "\<lceil>(25::real) / real (unat (chunkDuration ?c))\<rceil> < 2 ^ 31" using c by simp
  from fixed_plan_chunks[OF h1 h2 h3 h4 h5] obtain chunks where
    r: "createFixedDurationChunks ?c 25 = Inr chunks"
    and l: "int (length chunks) = \<lceil>(25::real) / real (unat (chunkDuration ?c))\<rceil>"
    and a: "\<forall>i<length chunks.
              c_ChunkID (chunks ! i) = of_nat (i + 1)
            \<and> c_StartTime (chunks ! i) = real i * real (unat (chunkDuration ?c))
            \<and> c_EndTime (chunks ! i) =
                (if i + 1 = length chunks then 25 else real (i + 1) * real (unat (chunkDuration ?c)))
            \<and> c_SourcePath (chunks ! i) = sourcePath ?c"
    by blast
  from l c have len: "length chunks = 3" by linarith
  with a have "c_EndTime (chunks ! 2) = 25" by simp
  with r len h1 h2 h3 h4 h5 show ?thesis by blast
qed

subsection \<open>C8: chapter-derived plans\<close>

text \<open>
  Claim C8 says that a chapter entry that fails to parse or to validate makes the plan
  operation return an error. \<open>CreateChunks\<close> does not: when
  \<open>createChunksFromChapters\<close> fails, it falls through to the fixed-width plan (the source
  says so in a comment). Here the second chapter's end time does not parse, and the
  planner returns three fixed-width chunks.
\<close>

theorem chapter_failure_falls_back_counterexample:
  "CreateChunks [''0'' \<mapsto> 0, ''10'' \<mapsto> 10]
     \<lparr>sourcePath = ''/in.mp4'', chunkDuration = 10, useChapters = True\<rparr>
     (Some \<lparr>GetDuration = Some 25, HasChapters = True,
            GetChapters = [\<lparr>ch_StartTime = ''0'', ch_EndTime = ''10''\<rparr>,
                           \<lparr>ch_StartTime = ''10'', ch_EndTime = ''abc''\<rparr>]\<rparr>)
   = Inr [\<lparr>c_ChunkID = 1, c_StartTime = 0, c_EndTime = 10, c_SourcePath = ''/in.mp4''\<rparr>,
          \<lparr>c_ChunkID = 2, c_StartTime = 10, c_EndTime = 20, c_SourcePath = ''/in.mp4''\<rparr>,
          \<lparr>c_ChunkID = 3, c_StartTime = 20, c_EndTime = 25, c_SourcePath = ''/in.mp4''\<rparr>]"
  by (simp add: CreateChunks_def MinChunkDuration_def MaxChunkDuration_def
      createChunksFromChapters_def Chunk_Validate_def TrimSpace_empty_def ascii_space_def
      createFixedDurationChunks_def chunkCountOf_def trunc_def fixedLoop.simps Let_def)

lemma CreateChunks_fallback:
  assumes "sourcePath c \<noteq> []" "MinChunkDuration \<le> unat (chunkDuration c)"
    "unat (chunkDuration c) \<le> MaxChunkDuration" "GetDuration mi = Some D" "0 < D"
    "createChunksFromChapters scanf c mi = Inl err"
  shows "CreateChunks scanf c (Some mi) = createFixedDurationChunks c D"
  using assms by (simp add: CreateChunks_def)

text \<open>
  Claim C8, amended. Every chunk that \<open>createChunksFromChapters\<close> returns has passed
  \<open>Chunk_Validate\<close>, one chunk per chapter with ids from 1 in probe order; if any chapter
  entry fails to parse or to validate, \<open>createChunksFromChapters\<close> returns an error and
  no chunk list, and \<open>CreateChunks\<close> (its other checks passed) then returns the
  fixed-width plan instead of that error.
\<close>

theorem chapter_plan_validated_or_fallback:
  "(createChunksFromChapters scanf c mi = Inr chunks \<longrightarrow>
      length chunks = length (GetChapters mi)
      \<and> (\<forall>k < length chunks.
            Chunk_Validate (chunks ! k) = None \<and> c_ChunkID (chunks ! k) = of_nat (k + 1)))
   \<and> (ch \<in> set (GetChapters mi) \<and> entry_fails scanf (sourcePath c) ch \<longrightarrow>
        (\<exists>err. createChunksFromChapters scanf c mi = Inl err)
        \<and> (sourcePath c \<noteq> [] \<and> MinChunkDuration \<le> unat (chunkDuration c)
             \<and> unat (chunkDuration c) \<le> MaxChunkDuration
             \<and> GetDuration mi = Some D \<and> 0 < D \<longrightarrow>
           CreateChunks scanf c (Some mi) = createFixedDurationChunks c D))"
proof (intro conjI impI)
  assume r: "createChunksFromChapters scanf c mi = Inr chunks"
  then have "chaptersLoop scanf (sourcePath c) 0 (GetChapters mi) [] = Inr chunks"
    by (simp add: createChunksFromChapters_def Let_def split: if_splits)
  from chaptersLoop_Inr[OF this] obtain new where
    n: "chunks = [] @ new" "length new = length (GetChapters mi)"
       "\<forall>k < length new. Chunk_Validate (new ! k) = None
           \<and> scanf (ch_StartTime (GetChapters mi ! k)) = Some (c_StartTime (new ! k))
           \<and> scanf (ch_EndTime (GetChapters mi ! k)) = Some (c_EndTime (new ! k))
           \<and> c_ChunkID (new ! k) = of_nat (0 + k + 1)
           \<and> c_SourcePath (new ! k) = sourcePath c"
    by blast
  show "length chunks = length (GetChapters mi)" using n by simp
  show "\<forall>k < length chunks.
            Chunk_Validate (chunks ! k) = None \<and> c_ChunkID (chunks ! k) = of_nat (k + 1)"
    using n by simp
next
  assume a: "ch \<in> set (GetChapters mi) \<and> entry_fails scanf (sourcePath c) ch"
  then have ne: "length (GetChapters mi) \<noteq> 0" by auto
  from a chaptersLoop_fatal[of ch "GetChapters mi" scanf "sourcePath c" 0 "[]"]
  obtain err where e: "chaptersLoop scanf (sourcePath c) 0 (GetChapters mi) [] = Inl err"
    by blast
  then have f: "createChunksFromChapters scanf c mi = Inl err"
    using ne by (simp add: createChunksFromChapters_def Let_def)
  then show "\<exists>err. createChunksFromChapters scanf c mi = Inl err" by blast
  assume "sourcePath c \<noteq> [] \<and> MinChunkDuration \<le> unat (chunkDuration c)
             \<and> unat (chunkDuration c) \<le> MaxChunkDuration
             \<and> GetDuration mi = Some D \<and> 0 < D"
  then show "CreateChunks scanf c (Some mi) = createFixedDurationChunks c D"
    using CreateChunks_fallback[of c mi D scanf err] f by blast
qed

theorem chapter_plan_validated_or_fallback_witness:
  "createChunksFromChapters [''0'' \<mapsto> 0, ''10'' \<mapsto> 10]
       \<lparr>sourcePath = ''/in.mp4'', chunkDuration = 10, useChapters = True\<rparr>
       \<lparr>GetDuration = Some 25, HasChapters = True,
         GetChapters = [\<lparr>ch_StartTime = ''0'', ch_EndTime = ''10''\<rparr>]\<rparr>
     = Inr [\<lparr>c_ChunkID = 1, c_StartTime = 0, c_EndTime = 10, c_SourcePath = ''/in.mp4''\<rparr>]
   \<and> Chunk_Validate
        \<lparr>c_ChunkID = 1, c_StartTime = 0, c_EndTime = 10, c_SourcePath = ''/in.mp4''\<rparr> = None
   \<and> entry_fails [''0'' \<mapsto> 0, ''10'' \<mapsto> 10] ''/in.mp4''
        \<lparr>ch_StartTime = ''10'', ch_EndTime = ''abc''\<rparr>
   \<and> (\<exists>err. createChunksFromChapters [''0'' \<mapsto> 0, ''10'' \<mapsto> 10]
         \<lparr>sourcePath = ''/in.mp4'', chunkDuration = 10, useChapters = True\<rparr>
         \<lparr>GetDuration = Some 25, HasChapters = True,
           GetChapters = [\<lparr>ch_StartTime = ''0'', ch_EndTime = ''10''\<rparr>,
                          \<lparr>ch_StartTime = ''10'', ch_EndTime = ''abc''\<rparr>]\<rparr> = Inl err)
   \<and> CreateChunks [''0'' \<mapsto> 0, ''10'' \<mapsto> 10]
         \<lparr>sourcePath = ''/in.mp4'', chunkDuration = 10, useChapters = True\<rparr>
         (Some \<lparr>GetDuration = Some 25, HasChapters = True,
           GetChapters = [\<lparr>ch_StartTime = ''0'', ch_EndTime = ''10''\<rparr>,
                          \<lparr>ch_StartTime = ''10'', ch_EndTime = ''abc''\<rparr>]\<rparr>)
       = createFixedDurationChunks
           \<lparr>sourcePath = ''/in.mp4'', chunkDuration = 10, useChapters = True\<rparr> 25"
proof -
  let ?scanf = "[''0'' \<mapsto> 0::real, ''10'' \<mapsto> 10]"
  let ?c = "\<lparr>sourcePath = ''/in.mp4'', chunkDuration = 10, useChapters = True\<rparr>"
  let ?good = "\<lparr>GetDuration = Some (25::real), HasChapters = True,
         GetChapters = [\<lparr>ch_StartTime = ''0'', ch_EndTime = ''10''\<rparr>]\<rparr>"
  let ?bad = "\<lparr>GetDuration = Some (25::real), HasChapters = True,
           GetChapters = [\<lparr>ch_StartTime = ''0'', ch_EndTime = ''10''\<rparr>,
                          \<lparr>ch_StartTime = ''10'', ch_EndTime = ''abc''\<rparr>]\<rparr>"
  let ?chunk = "\<lparr>c_ChunkID = 1, c_StartTime = 0, c_EndTime = 10, c_SourcePath = ''/in.mp4''\<rparr>"
  let ?ch = "\<lparr>ch_StartTime = ''10'', ch_EndTime = ''abc''\<rparr>"
  have g: "createChunksFromChapters ?scanf ?c ?good = Inr [?chunk]"
    by (simp add: createChunksFromChapters_def Chunk_Validate_def TrimSpace_empty_def
        ascii_space_def Let_def)
  have v: "Chunk_Validate ?chunk = None"
    using chapter_plan_validated_or_fallback[of ?scanf ?c ?good "[?chunk]" ?ch 25] g by simp
  have ef: "entry_fails ?scanf ''/in.mp4'' ?ch" by (simp add: entry_fails_def)
  have b: "(\<exists>err. createChunksFromChapters ?scanf ?c ?bad = Inl err)
      \<and> CreateChunks ?scanf ?c (Some ?bad) = createFixedDurationChunks ?c 25"
    using chapter_plan_validated_or_fallback[of ?scanf ?c ?bad "[]" ?ch 25] ef
    by (simp add: MinChunkDuration_def MaxChunkDuration_def)
  from g v ef b show ?thesis by blast
qed
section \<open>Properties of the concatenation finalizer\<close>



lemma splitResults_filter:
  "splitResults env rs = (filter (usable env) rs, filter (\<lambda>r. \<not> usable env r) rs)"
  by (induction rs) (auto simp: usable_def Let_def)

lemma pair_gap_empty:
  "((if n \<noteq> c + 1 then map of_nat [unat (c + 1) ..< unat n] else []) = ([] :: 64 word list))
     = (n \<le> c + (1 :: 64 word))"
  by (auto simp: word_le_nat_alt)

lemma gapsOf_empty:
  "(gapsOf xs = []) = (\<forall>i. Suc i < length xs \<longrightarrow> r_ChunkID (xs ! Suc i) \<le> r_ChunkID (xs ! i) + 1)"
proof (induction xs rule: gapsOf.induct)
  case (1 current nxt rest)
  have "(\<forall>i. Suc i < length (current # nxt # rest) \<longrightarrow>
           r_ChunkID ((current # nxt # rest) ! Suc i) \<le> r_ChunkID ((current # nxt # rest) ! i) + 1)
      = (r_ChunkID nxt \<le> r_ChunkID current + 1
         \<and> (\<forall>i. Suc i < length (nxt # rest) \<longrightarrow>
           r_ChunkID ((nxt # rest) ! Suc i) \<le> r_ChunkID ((nxt # rest) ! i) + 1))"
    (is "?L = (?A \<and> ?R)")
  proof
    assume L: ?L
    have ?A using L[rule_format, of 0] by simp
    moreover have ?R
    proof (intro allI impI)
      fix i assume "Suc i < length (nxt # rest)"
      then show "r_ChunkID ((nxt # rest) ! Suc i) \<le> r_ChunkID ((nxt # rest) ! i) + 1"
        using L[rule_format, of "Suc i"] by simp
    qed
    ultimately show "?A \<and> ?R" by blast
  next
    assume AR: "?A \<and> ?R"
    show ?L
    proof (intro allI impI)
      fix i assume i: "Suc i < length (current # nxt # rest)"
      show "r_ChunkID ((current # nxt # rest) ! Suc i) \<le> r_ChunkID ((current # nxt # rest) ! i) + 1"
      proof (cases i)
        case 0
        then show ?thesis using AR by simp
      next
        case (Suc j)
        then show ?thesis using AR[THEN conjunct2, rule_format, of j] i by simp
      qed
    qed
  qed
  then show ?case using 1 pair_gap_empty[of "r_ChunkID nxt" "r_ChunkID current"] by simp
qed simp_all

lemma map_insort_key: "map f (insort_key f x xs) = insort (f x) (map f xs)"
  by (induction xs) simp_all

lemma map_sort_key: "map f (sort_key f xs) = sort (map f xs)"
  by (induction xs) (simp_all add: map_insort_key)

subsection \<open>C7: strict concatenation\<close>

text \<open>
  Claim C7 says that strict concatenation produces the output only if the successful ids
  are \<open>1..k\<close>. \<open>checkForGaps\<close> compares neighbours only, so a run that does not start
  at 1 passes: here the results are chunks 2 and 3, every external step succeeds, and
  \<open>Concatenate\<close> returns no error.
\<close>

theorem strict_concat_not_from_one_counterexample:
  "Concatenate
     \<lparr>stat = (\<lambda>p. True), createTemp = Some ''/tmp/concat-1.txt'', absPath = Some,
      writeString = (\<lambda>l. True), ffmpeg = (\<lambda>args. True), statAfter = (\<lambda>p. True)\<rparr>
     True
     [\<lparr>r_ChunkID = 2, r_OutputPath = ''/tmp/c2.opus'', r_Success = True, r_Error = None\<rparr>,
      \<lparr>r_ChunkID = 3, r_OutputPath = ''/tmp/c3.opus'', r_Success = True, r_Error = None\<rparr>]
     ''/out/final.opus'' = None
   \<and> \<not> form_1_to_k (sort (map r_ChunkID
       [\<lparr>r_ChunkID = 2, r_OutputPath = ''/tmp/c2.opus'', r_Success = True, r_Error = None\<rparr>,
        \<lparr>r_ChunkID = 3, r_OutputPath = ''/tmp/c3.opus'', r_Success = True, r_Error = None\<rparr>]))"
  by (simp add: Concatenate_def validateResults_def checkForGaps_def createConcatFile_def
      runConcat_def form_1_to_k_def Let_def)

text \<open>
  Claim C7, amended. In strict mode \<open>Concatenate\<close> produces the final output (returns no
  error) if and only if the input is not empty, every input result succeeded with an
  output file that exists, the successful ids in ascending order have no missing id
  between neighbours (each id is at most its predecessor plus one; the run need not start
  at 1), and writing the list file and the join subprocess succeed. So any failed result,
  and any id missing between two present ids, is fatal in strict mode.
\<close>

theorem strict_concat_iff:
  "Concatenate env True results out = None \<longleftrightarrow>
     results \<noteq> []
   \<and> (\<forall>r \<in> set results. r_Success r \<and> r_OutputPath r \<noteq> [] \<and> stat env (r_OutputPath r))
   \<and> (\<forall>i. Suc i < length results \<longrightarrow>
          sort (map r_ChunkID results) ! Suc i \<le> sort (map r_ChunkID results) ! i + 1)
   \<and> (\<exists>f. createConcatFile env (sort_key r_ChunkID results) = Inr f \<and> runConcat env f out = None)"
proof (cases "results = []")
  case True
  then show ?thesis by (simp add: Concatenate_def validateResults_def)
next
  case ne: False
  show ?thesis
  proof (cases "\<forall>r \<in> set results. usable env r")
    case False
    then have "filter (\<lambda>r. \<not> usable env r) results \<noteq> []" by (simp add: filter_empty_conv)
    then have "Concatenate env True results out \<noteq> None"
      using ne by (simp add: Concatenate_def validateResults_def splitResults_filter)
    moreover have "\<not> (\<forall>r \<in> set results. r_Success r \<and> r_OutputPath r \<noteq> [] \<and> stat env (r_OutputPath r))"
      using False by (simp add: usable_def)
    ultimately show ?thesis by blast
  next
    case True
    then have f1: "filter (usable env) results = results" by simp
    from True have f2: "filter (\<lambda>r. \<not> usable env r) results = []" by simp
    let ?s = "sort_key r_ChunkID results"
    have ids: "map r_ChunkID ?s = sort (map r_ChunkID results)" by (rule map_sort_key)
    have len: "length ?s = length results" by simp
    have nth: "r_ChunkID (?s ! i) = sort (map r_ChunkID results) ! i" if "i < length results" for i
      using that ids len by (metis nth_map)
    have gaps: "(gapsOf ?s = []) = (\<forall>i. Suc i < length results \<longrightarrow>
          sort (map r_ChunkID results) ! Suc i \<le> sort (map r_ChunkID results) ! i + 1)"
      unfolding gapsOf_empty len using nth by (metis Suc_lessD)
    have sne: "?s \<noteq> []" using ne len by (metis length_0_conv)
    have C: "Concatenate env True results out =
        (if gapsOf ?s \<noteq> [] then Some (MissingChunks (gapsOf ?s))
         else case createConcatFile env ?s of Inl e \<Rightarrow> Some e
              | Inr f \<Rightarrow> runConcat env f out)"
      using ne sne by (simp add: Concatenate_def validateResults_def splitResults_filter f1 f2
          checkForGaps_def Let_def)
    have all: "\<forall>r \<in> set results. r_Success r \<and> r_OutputPath r \<noteq> [] \<and> stat env (r_OutputPath r)"
      using True by (simp add: usable_def)
    show ?thesis
      unfolding C using ne all gaps by (auto split: sum.splits)
  qed
qed


theorem strict_concat_iff_witness:
  "Concatenate
     \<lparr>stat = (\<lambda>p. True), createTemp = Some ''/tmp/concat-1.txt'', absPath = Some,
      writeString = (\<lambda>l. True), ffmpeg = (\<lambda>args. True), statAfter = (\<lambda>p. True)\<rparr>
     True
     [\<lparr>r_ChunkID = 2, r_OutputPath = ''/tmp/c2.opus'', r_Success = True, r_Error = None\<rparr>,
      \<lparr>r_ChunkID = 1, r_OutputPath = ''/tmp/c1.opus'', r_Success = True, r_Error = None\<rparr>]
     ''/out/final.opus'' = None
   \<and> Concatenate
     \<lparr>stat = (\<lambda>p. True), createTemp = Some ''/tmp/concat-1.txt'', absPath = Some,
      writeString = (\<lambda>l. True), ffmpeg = (\<lambda>args. True), statAfter = (\<lambda>p. True)\<rparr>
     True
     [\<lparr>r_ChunkID = 1, r_OutputPath = ''/tmp/c1.opus'', r_Success = True, r_Error = None\<rparr>,
      \<lparr>r_ChunkID = 3, r_OutputPath = ''/tmp/c3.opus'', r_Success = True, r_Error = None\<rparr>]
     ''/out/final.opus'' \<noteq> None"
proof -
  let ?env = "\<lparr>stat = (\<lambda>p. True), createTemp = Some ''/tmp/concat-1.txt'', absPath = Some,
      writeString = (\<lambda>l. True), ffmpeg = (\<lambda>args. True), statAfter = (\<lambda>p. True)\<rparr>"
  let ?r1 = "\<lparr>r_ChunkID = 1, r_OutputPath = ''/tmp/c1.opus'', r_Success = True, r_Error = None\<rparr>"
  let ?r2 = "\<lparr>r_ChunkID = 2, r_OutputPath = ''/tmp/c2.opus'', r_Success = True, r_Error = None\<rparr>"
  let ?r3 = "\<lparr>r_ChunkID = 3, r_OutputPath = ''/tmp/c3.opus'', r_Success = True, r_Error = None\<rparr>"
  have a: "Concatenate ?env True [?r2, ?r1] ''/out/final.opus'' = None"
    unfolding strict_concat_iff
    by (simp add: createConcatFile_def runConcat_def)
  have "\<not> (sort (map r_ChunkID [?r1, ?r3]) ! Suc 0 \<le> sort (map r_ChunkID [?r1, ?r3]) ! 0 + 1)"
    by simp
  then have b: "Concatenate ?env True [?r1, ?r3] ''/out/final.opus'' \<noteq> None"
    unfolding strict_concat_iff by (metis length_Cons lessI list.size(3))
  from a b show ?thesis by blast
qed
section \<open>Properties of the time formatter\<close>

lemma digit_cases: "d < 10 \<Longrightarrow> d = 0 \<or> d = 1 \<or> d = 2 \<or> d = 3 \<or> d = 4 \<or> d = 5 \<or> d = 6 \<or> d = 7 \<or> d = 8 \<or> d = (9::nat)"
  by arith

lemma digitVal_digit: "d < 10 \<Longrightarrow> digitVal (digit d) = d"
  using digit_cases[of d] by (auto simp: digitVal_def digit_def)

lemma digit_is_digit: "d < 10 \<Longrightarrow> digit d \<in> set ''0123456789''"
  using digit_cases[of d] by (auto simp: digit_def)

lemma num_append: "num (a @ b) = num a * 10 ^ length b + num b"
proof (induction b rule: rev_induct)
  case Nil
  then show ?case by (simp add: num_def)
next
  case (snoc x xs)
  have "num (a @ xs @ [x]) = 10 * num (a @ xs) + digitVal x" by (simp add: num_def)
  also have "\<dots> = 10 * (num a * 10 ^ length xs + num xs) + digitVal x" using snoc by simp
  also have "\<dots> = num a * 10 ^ length (xs @ [x]) + (10 * num xs + digitVal x)" by (simp add: algebra_simps)
  also have "10 * num xs + digitVal x = num (xs @ [x])" by (simp add: num_def)
  finally show ?case .
qed

lemma num_decimal: "num (decimal n) = n"
proof (induction n rule: decimal.induct)
  case (1 n)
  show ?case
  proof (cases "n < 10")
    case True
    then show ?thesis by (simp add: decimal.simps[of n] num_def digitVal_digit)
  next
    case False
    have "num (decimal n) = num (decimal (n div 10)) * 10 + num [digit (n mod 10)]"
      using False by (simp add: decimal.simps[of n] num_append)
    also have "num [digit (n mod 10)] = n mod 10" by (simp add: num_def digitVal_digit)
    finally show ?thesis using 1[OF False] by simp
  qed
qed

lemma is_digits_decimal: "is_digits (decimal n)"
proof (induction n rule: decimal.induct)
  case (1 n)
  show ?case
  proof (cases "n < 10")
    case True
    then show ?thesis using digit_is_digit[of n] by (simp add: decimal.simps[of n] is_digits_def)
  next
    case False
    then show ?thesis using 1[OF False] digit_is_digit[of "n mod 10"]
      by (simp add: decimal.simps[of n] is_digits_def)
  qed
qed

lemma length_decimal_small: "n < 10 \<Longrightarrow> length (decimal n) = 1"
  by (simp add: decimal.simps[of n])

lemma length_decimal_two: "10 \<le> n \<Longrightarrow> n < 100 \<Longrightarrow> length (decimal n) = 2"
  by (simp add: decimal.simps[of n] length_decimal_small)

lemma length_decimal_pos: "1 \<le> length (decimal n)"
  by (simp add: decimal.simps[of n])

lemma num_zeroPad: "num (zeroPad w s) = num s"
proof -
  have z: "digitVal (CHR ''0'') = 0" by (simp add: digitVal_def)
  have c: "num (CHR ''0'' # t) = num t" for t
    using num_append[of "[CHR ''0'']" t] z by (simp add: num_def)
  have "num (replicate k (CHR ''0'') @ t) = num t" for k t
    by (induction k) (simp_all add: c)
  then show ?thesis by (simp add: zeroPad_def)
qed

lemma is_digits_zeroPad: "is_digits s \<Longrightarrow> is_digits (zeroPad w s)"
  by (auto simp: zeroPad_def is_digits_def)

lemma length_zeroPad: "length (zeroPad w s) = max w (length s)"
  by (simp add: zeroPad_def)


lemma roundHalfEven_near:
  assumes "0 \<le> y"
  shows "\<bar>real (roundHalfEven y) - y\<bar> \<le> 1 / 2"
proof -
  have f: "real (nat \<lfloor>y\<rfloor>) = of_int \<lfloor>y\<rfloor>" using assms by simp
  have "0 \<le> y - of_int \<lfloor>y\<rfloor>" "y - of_int \<lfloor>y\<rfloor> < 1" by linarith+
  then show ?thesis using f by (auto simp: roundHalfEven_def Let_def abs_le_iff)
qed

lemma roundHalfEven_tie:
  assumes "y = real k + 1 / 2"
  shows "even (roundHalfEven y)"
proof -
  have fl: "\<lfloor>y\<rfloor> = int k" unfolding assms by linarith
  then have d: "y - of_int \<lfloor>y\<rfloor> = 1 / 2" using assms by simp
  have n: "nat \<lfloor>y\<rfloor> = k" using fl by simp
  show ?thesis unfolding roundHalfEven_def Let_def d n by simp
qed

lemma zeroPad5_body:
  assumes "length d \<le> 2" "1 \<le> length d" "length f = 2"
  shows "zeroPad 5 (d @ ''.'' @ f) = zeroPad 2 d @ ''.'' @ f"
  using assms by (simp add: zeroPad_def)

lemma length_decimal_le2: "n < 100 \<Longrightarrow> length (decimal n) \<le> 2"
  using length_decimal_small[of n] length_decimal_two[of n] by (cases "n < 10") simp_all

lemma length_zeroPad2_decimal: "n < 100 \<Longrightarrow> length (zeroPad 2 (decimal n)) = 2"
  using length_decimal_le2[of n] length_decimal_pos[of n] by (simp add: length_zeroPad)

subsection \<open>C10: the rendered time\<close>

text \<open>
  Claim C10 says that rounding is half-up.  It is not: 0.125 seconds (a \<open>float64\<close>
  value), a tie that half-up rounding takes to 0.13, is rendered as 0.12.
\<close>

theorem format_seconds_rounding_counterexample:
  "FormatSeconds (1 / 8) = ''00:00:00.12''"
  by (simp add: FormatSeconds_def trunc_def fmt_02d_def fmt_05_2f_def roundHalfEven_def
      zeroPad_def decimal.simps digit_def signed_divide_int_def signed_modulo_int_def Let_def)

text \<open>
  The formatter rounds the seconds after it has split off the minutes, and does not carry:
  59.99609375 seconds (a \<open>float64\<close> value) are rendered with the seconds field at 60.
\<close>

lemma format_seconds_missed_carry:
  "FormatSeconds (15359 / 256) = ''00:00:60.00''"
  by (simp add: FormatSeconds_def trunc_def fmt_02d_def fmt_05_2f_def roundHalfEven_def
      zeroPad_def decimal.simps digit_def signed_divide_int_def signed_modulo_int_def Let_def)

text \<open>
  Claim C10, amended. For every seconds value \<open>s\<close> with \<open>0 \<le> s < 2^53\<close> (where the
  \<open>float64\<close> and \<open>int\<close> arithmetic of the code is exact) the formatter renders
  \<open>H:M:S.F\<close>, all four fields decimal digits, \<open>H\<close> of at least two digits and \<open>M\<close>,
  \<open>S\<close>, \<open>F\<close> of exactly two; \<open>H\<close> is the whole number of hours (not reduced modulo 24),
  \<open>M\<close> the minutes, below 60.  Whenever the remaining seconds are below 59.995, \<open>S.F\<close>
  is the remaining seconds rounded to the nearest hundredth, a tie going to the even
  hundredth, and the seconds field is below 60.  Nothing is stated of the value of \<open>S.F\<close>
  for remaining seconds from 59.995, where the carry is missed.
\<close>

theorem format_seconds_fields:
  assumes "0 \<le> s" "s < 2 ^ 53"
  shows "\<exists>H M S F.
      FormatSeconds s = H @ '':'' @ M @ '':'' @ S @ ''.'' @ F
    \<and> is_digits H \<and> is_digits M \<and> is_digits S \<and> is_digits F
    \<and> 2 \<le> length H \<and> length M = 2 \<and> length S = 2 \<and> length F = 2
    \<and> int (num H) = \<lfloor>s\<rfloor> div 3600
    \<and> int (num M) = (\<lfloor>s\<rfloor> mod 3600) div 60 \<and> num M < 60
    \<and> (s - real (3600 * num H) - real (60 * num M) < 59995 / 1000 \<longrightarrow>
          \<bar>real (100 * num S + num F) / 100 - (s - real (3600 * num H) - real (60 * num M))\<bar>
             \<le> 1 / 200
        \<and> ((\<exists>k::nat. (s - real (3600 * num H) - real (60 * num M)) * 100 = real k + 1 / 2)
             \<longrightarrow> even (100 * num S + num F))
        \<and> num S < 60)"
proof -
  define n where "n = \<lfloor>s\<rfloor>"
  define h where "h = nat (n div 3600)"
  define m where "m = nat ((n mod 3600) div 60)"
  define secs where "secs = s - real (3600 * h) - real (60 * m)"
  define r where "r = roundHalfEven (secs * 100)"
  have n0: "0 \<le> n" using assms(1) by (simp add: n_def)
  have tr: "trunc s = n" using assms(1) by (simp add: trunc_def n_def)
  have hours: "n sdiv 3600 = int h"
    using n0 by (simp add: signed_divide_int_def h_def sgn_if pos_imp_zdiv_nonneg_iff)
  have m0: "0 \<le> (n mod 3600) div 60" by (simp add: pos_imp_zdiv_nonneg_iff)
  have minutes: "(n smod 3600) sdiv 60 = int m"
    using n0 m0 by (simp add: signed_divide_int_def signed_modulo_int_def m_def sgn_if)
  have mlt: "m < 60" unfolding m_def using n0 by simp
  have h0: "0 \<le> n div 3600" using n0 by (simp add: pos_imp_zdiv_nonneg_iff)
  have dec: "n = 3600 * int h + 60 * int m + (n mod 3600) mod 60"
    using h0 m0 unfolding h_def m_def by (simp add: mult_div_mod_eq)
  have rem: "0 \<le> (n mod 3600) mod 60" "(n mod 3600) mod 60 < 60" by simp_all
  have sn: "of_int n \<le> s" "s < of_int n + 1" unfolding n_def by linarith+
  have "real_of_int n = 3600 * real h + 60 * real m + real_of_int ((n mod 3600) mod 60)"
    using arg_cong[OF dec, of real_of_int] by simp
  then have secs_eq: "secs = (s - of_int n) + real_of_int ((n mod 3600) mod 60)"
    by (simp add: secs_def)
  have "real_of_int ((n mod 3600) mod 60) \<le> 59" using rem by linarith
  moreover have "0 \<le> real_of_int ((n mod 3600) mod 60)" using rem by linarith
  ultimately have secs_range: "0 \<le> secs" "secs < 60" using secs_eq sn by linarith+
  have near: "\<bar>real r - secs * 100\<bar> \<le> 1 / 2"
    unfolding r_def using secs_range by (intro roundHalfEven_near) simp
  have "real r < 6001" using near secs_range by linarith
  then have rle: "r \<le> 6000" by linarith
  then have rdiv: "r div 100 < 100" by simp
  define S where "S = zeroPad 2 (decimal (r div 100))"
  define F where "F = zeroPad 2 (decimal (r mod 100))"
  define H where "H = zeroPad 2 (decimal h)"
  define M where "M = zeroPad 2 (decimal m)"
  have lenF: "length F = 2" unfolding F_def by (rule length_zeroPad2_decimal) simp
  have lenS: "length S = 2" unfolding S_def by (rule length_zeroPad2_decimal) (rule rdiv)
  have lenM: "length M = 2" unfolding M_def using mlt by (intro length_zeroPad2_decimal) simp
  have lenH: "2 \<le> length H" unfolding H_def by (simp add: length_zeroPad)
  have numS: "num S = r div 100" by (simp add: S_def num_zeroPad num_decimal)
  have numF: "num F = r mod 100" by (simp add: F_def num_zeroPad num_decimal)
  have numH: "num H = h" by (simp add: H_def num_zeroPad num_decimal)
  have numM: "num M = m" by (simp add: M_def num_zeroPad num_decimal)
  have rSF: "100 * num S + num F = r" using numS numF by simp
  have body: "fmt_05_2f secs = S @ ''.'' @ F"
  proof -
    have "fmt_05_2f secs = zeroPad 5 (decimal (r div 100) @ ''.'' @ F)"
      using secs_range by (simp add: fmt_05_2f_def Let_def r_def F_def)
    also have "\<dots> = S @ ''.'' @ F"
      unfolding S_def
      by (rule zeroPad5_body[OF length_decimal_le2[OF rdiv] length_decimal_pos lenF])
    finally show ?thesis .
  qed
  have secs': "s - of_int (int h * 3600) - of_int (int m * 60) = secs"
    by (simp add: secs_def)
  have fmt: "FormatSeconds s = H @ '':'' @ M @ '':'' @ S @ ''.'' @ F"
    unfolding FormatSeconds_def Let_def tr hours minutes secs' body
    by (simp add: fmt_02d_def H_def M_def)
  have dig: "is_digits H" "is_digits M" "is_digits S" "is_digits F"
    unfolding H_def M_def S_def F_def by (simp_all add: is_digits_zeroPad is_digits_decimal)
  have hv: "int (num H) = \<lfloor>s\<rfloor> div 3600"
    using n0 by (simp add: numH h_def n_def[symmetric] pos_imp_zdiv_nonneg_iff)
  have mv: "int (num M) = (\<lfloor>s\<rfloor> mod 3600) div 60"
    using m0 by (simp add: numM m_def n_def[symmetric])
  have secsv: "s - real (3600 * num H) - real (60 * num M) = secs"
    by (simp add: numH numM secs_def)
  have nearv: "\<bar>real (100 * num S + num F) / 100 - secs\<bar> \<le> 1 / 200"
    unfolding rSF using near by linarith
  have tie: "(\<exists>k::nat. secs * 100 = real k + 1 / 2) \<longrightarrow> even (100 * num S + num F)"
    unfolding rSF r_def using roundHalfEven_tie by blast
  have range: "secs < 59995 / 1000 \<longrightarrow> num S < 60"
  proof
    assume "secs < 59995 / 1000"
    then have "real r < 6000" using near by linarith
    then have "r < 6000" by linarith
    then show "num S < 60" unfolding numS by simp
  qed
  show ?thesis
    apply (rule exI[of _ H], rule exI[of _ M], rule exI[of _ S], rule exI[of _ F])
    unfolding secsv
    using fmt dig lenH lenM lenS lenF hv mv mlt numM nearv tie range
    by simp
qed


theorem format_seconds_fields_witness:
  "(0::real) \<le> 363 / 4 \<and> (363::real) / 4 < 2 ^ 53
   \<and> (\<exists>H M S F. FormatSeconds (363 / 4) = H @ '':'' @ M @ '':'' @ S @ ''.'' @ F
        \<and> length M = 2 \<and> num H = 0 \<and> num M = 1
        \<and> (363::real) / 4 - real (3600 * num H) - real (60 * num M) < 59995 / 1000
        \<and> num S < 60
        \<and> \<bar>real (100 * num S + num F) / 100 - 123 / 4\<bar> \<le> 1 / 200)"
proof -
  have h: "(0::real) \<le> 363 / 4" by simp
  have h2: "(363::real) / 4 < 2 ^ 53" by simp
  have fl: "\<lfloor>(363::real) / 4\<rfloor> = 90" by linarith
  from format_seconds_fields[OF h h2] obtain H M S F where
    f: "FormatSeconds (363 / 4) = H @ '':'' @ M @ '':'' @ S @ ''.'' @ F"
    and l: "length M = 2"
    and hv: "int (num H) = \<lfloor>(363::real) / 4\<rfloor> div 3600"
    and mv: "int (num M) = (\<lfloor>(363::real) / 4\<rfloor> mod 3600) div 60"
    and r: "363 / 4 - real (3600 * num H) - real (60 * num M) < 59995 / 1000 \<longrightarrow>
          \<bar>real (100 * num S + num F) / 100 - (363 / 4 - real (3600 * num H) - real (60 * num M))\<bar>
             \<le> 1 / 200
        \<and> ((\<exists>k::nat. (363 / 4 - real (3600 * num H) - real (60 * num M)) * 100 = real k + 1 / 2)
             \<longrightarrow> even (100 * num S + num F))
        \<and> num S < 60"
    by blast
  from hv fl have H0: "num H = 0" by simp
  from mv fl have M1: "num M = 1" by simp
  have lt: "(363::real) / 4 - real (3600 * num H) - real (60 * num M) < 59995 / 1000"
    using H0 M1 by simp
  from r lt have "num S < 60"
    and "\<bar>real (100 * num S + num F) / 100 - (363 / 4 - real (3600 * num H) - real (60 * num M))\<bar>
             \<le> 1 / 200" by blast+
  then have "num S < 60" "\<bar>real (100 * num S + num F) / 100 - 123 / 4\<bar> \<le> 1 / 200"
    using H0 M1 by simp_all
  with f l H0 M1 h h2 lt show ?thesis by blast
qed
section \<open>Properties of the graph validation\<close>



lemma closed_reach:
  assumes "\<forall>b \<in> B. \<forall>a. (b, a) \<in> E \<longrightarrow> a \<in> B" "(x, y) \<in> E\<^sup>*" "x \<in> B"
  shows "y \<in> B"
  using assms(2,3,1) by (induction rule: rtrancl_induct) blast+

lemma dfs_inv_finish:
  assumes inv: "dfs_inv ts (V, R)" and v: "v \<in> R"
    and succ: "\<forall>a. (v, a) \<in> depends_on ts \<longrightarrow> a \<in> V - R"
  shows "dfs_inv ts (V, R - {v})"
proof -
  let ?E = "depends_on ts"
  from inv have sub: "R \<subseteq> V"
    and cl: "\<forall>b \<in> V - R. \<forall>a. (b, a) \<in> ?E \<longrightarrow> a \<in> V - R"
    and ac: "\<forall>b \<in> V - R. (b, b) \<notin> ?E\<^sup>+"
    unfolding dfs_inv_def prod.case by blast+
  have vac: "(v, v) \<notin> ?E\<^sup>+"
  proof
    assume "(v, v) \<in> ?E\<^sup>+"
    then obtain a where a: "(v, a) \<in> ?E" "(a, v) \<in> ?E\<^sup>*"
      by (meson tranclD)
    then have "a \<in> V - R" using succ by blast
    from closed_reach[OF cl a(2) this] have "v \<in> V - R" .
    with v show False by blast
  qed
  have eq: "V - (R - {v}) = insert v (V - R)" using v sub by blast
  have 1: "R - {v} \<subseteq> V" using sub by blast
  have 2: "\<forall>b \<in> insert v (V - R). \<forall>a. (b, a) \<in> ?E \<longrightarrow> a \<in> insert v (V - R)"
    using cl succ by blast
  have 3: "\<forall>b \<in> insert v (V - R). (b, b) \<notin> ?E\<^sup>+"
    using ac vac by blast
  show ?thesis unfolding dfs_inv_def prod.case eq using 1 2 3 by blast
qed



lemma dfs_inv_sub: "dfs_inv ts (V, R) \<Longrightarrow> R \<subseteq> V"
  unfolding dfs_inv_def prod.case by blast

lemma dfs_false:
  "hasCycle n ts v st = Some (False, st') \<Longrightarrow> dfs_inv ts st \<Longrightarrow> v \<notin> fst st \<Longrightarrow>
     fst st \<subseteq> fst st' \<and> snd st' = snd st \<and> v \<in> fst st' \<and> dfs_inv ts st'"
  "cycleDeps n ts ds v st = Some (False, st') \<Longrightarrow> dfs_inv ts st \<Longrightarrow> v \<in> snd st \<Longrightarrow>
     (\<forall>a. (v, a) \<in> depends_on ts \<longrightarrow> a \<in> set ds \<or> a \<in> fst st - snd st) \<Longrightarrow>
     fst st \<subseteq> fst st' \<and> snd st' = snd st - {v} \<and> dfs_inv ts st'"
proof (induction n ts v st and n ts ds v st arbitrary: st' and st' rule: hasCycle_cycleDeps.induct)
  case (1 ts taskID st)
  then show ?case by simp
next
  case (2 n ts taskID visited recStack)
  from "2.prems"(1) obtain task where t: "ts taskID = Some task"
    and c: "cycleDeps n ts (t_Dependencies task) taskID
              (insert taskID visited, insert taskID recStack) = Some (False, st')"
    by (auto split: option.splits)
  have nv: "taskID \<notin> visited" using "2.prems"(3) by simp
  have nr: "taskID \<notin> recStack" using dfs_inv_sub[of ts visited recStack] "2.prems"(2) nv by auto
  have eq: "insert taskID visited - insert taskID recStack = visited - recStack"
    using nv by blast
  have inv': "dfs_inv ts (insert taskID visited, insert taskID recStack)"
    using "2.prems"(2) unfolding dfs_inv_def prod.case eq by blast
  have succ: "\<forall>a. (taskID, a) \<in> depends_on ts \<longrightarrow>
      a \<in> set (t_Dependencies task)
      \<or> a \<in> fst (insert taskID visited, insert taskID recStack)
            - snd (insert taskID visited, insert taskID recStack)"
    using t by (auto simp: depends_on_def)
  from "2.IH"[OF t c inv' _ succ]
  have "fst (insert taskID visited, insert taskID recStack) \<subseteq> fst st'
     \<and> snd st' = snd (insert taskID visited, insert taskID recStack) - {taskID}
     \<and> dfs_inv ts st'" by simp
  then show ?case using nr by auto
next
  case (3 n ts taskID visited recStack)
  then have st': "st' = (visited, recStack - {taskID})" by simp
  have "dfs_inv ts (visited, recStack - {taskID})"
    using dfs_inv_finish[of ts visited recStack taskID] "3.prems" by simp
  then show ?case using st' by simp
next
  case (4 n ts depID rest taskID visited recStack)
  show ?case
  proof (cases "depID \<notin> visited")
    case True
    from "4.prems"(1) True obtain st1 where
      h: "hasCycle n ts depID (visited, recStack) = Some (False, st1)"
      and c: "cycleDeps n ts rest taskID st1 = Some (False, st')"
      by (auto split: option.splits bool.splits)
    from "4.IH"(1)[OF True h "4.prems"(2)] True
    have r1: "visited \<subseteq> fst st1" "snd st1 = recStack" "depID \<in> fst st1" "dfs_inv ts st1"
      by simp_all
    have sub: "recStack \<subseteq> visited" using "4.prems"(2) by (rule dfs_inv_sub)
    have dnr: "depID \<notin> recStack" using True sub by blast
    have s1: "taskID \<in> snd st1" using "4.prems"(3) r1(2) by simp
    have succ1: "\<forall>a. (taskID, a) \<in> depends_on ts \<longrightarrow> a \<in> set rest \<or> a \<in> fst st1 - snd st1"
      using "4.prems"(4) r1 dnr by auto
    from "4.IH"(2)[OF True h refl refl c r1(4) s1 succ1]
    have "fst st1 \<subseteq> fst st' \<and> snd st' = snd st1 - {taskID} \<and> dfs_inv ts st'" .
    then show ?thesis using r1 by auto
  next
    case False
    then have v: "depID \<in> visited" by simp
    with "4.prems"(1) have nr: "depID \<notin> recStack"
      and c: "cycleDeps n ts rest taskID (visited, recStack) = Some (False, st')"
      by (auto split: if_splits)
    have succ1: "\<forall>a. (taskID, a) \<in> depends_on ts \<longrightarrow>
         a \<in> set rest \<or> a \<in> fst (visited, recStack) - snd (visited, recStack)"
      using "4.prems"(4) v nr by auto
    from "4.IH"(3)[OF _ nr c "4.prems"(2) "4.prems"(3) succ1] v show ?thesis by simp
  qed
qed




lemma missingDependency_None:
  "(missingDependency ts taskID ds = None) = (\<forall>d \<in> set ds. ts d \<noteq> None)"
  by (induction ds) auto

lemma missingDependency_Some:
  "missingDependency ts taskID ds = Some e \<Longrightarrow>
     \<exists>d \<in> set ds. ts d = None \<and> e = NonExistentDependency taskID d"
  by (induction ds) (auto split: if_splits)

lemma checkDependencies_None:
  "(checkDependencies ts ks = None)
     = (\<forall>k \<in> set ks. \<forall>task. ts k = Some task \<longrightarrow> (\<forall>d \<in> set (t_Dependencies task). ts d \<noteq> None))"
proof (induction ks)
  case Nil
  then show ?case by simp
next
  case (Cons k ks)
  show ?case
  proof (cases "ts k")
    case None
    then show ?thesis using Cons by simp
  next
    case (Some task)
    show ?thesis
    proof (cases "missingDependency ts (t_ID task) (t_Dependencies task)")
      case None
      then show ?thesis using Cons Some missingDependency_None[of ts "t_ID task" "t_Dependencies task"]
        by simp
    next
      case (Some e)
      from missingDependency_Some[OF Some] obtain d where "d \<in> set (t_Dependencies task)" "ts d = None"
        by blast
      then show ?thesis using Some \<open>ts k = Some task\<close> by auto
    qed
  qed
qed

lemma checkDependencies_Some:
  "checkDependencies ts ks = Some e \<Longrightarrow>
     \<exists>k task d. ts k = Some task \<and> d \<in> set (t_Dependencies task) \<and> ts d = None
        \<and> e = NonExistentDependency (t_ID task) d"
proof (induction ks)
  case Nil
  then show ?case by simp
next
  case (Cons k ks)
  show ?case
  proof (cases "ts k")
    case None
    then show ?thesis using Cons by simp
  next
    case (Some task)
    show ?thesis
    proof (cases "missingDependency ts (t_ID task) (t_Dependencies task)")
      case None
      then show ?thesis using Cons Some by simp
    next
      case (Some e')
      with \<open>ts k = Some task\<close> Cons.prems have "e' = e" by simp
      with missingDependency_Some[OF Some] \<open>ts k = Some task\<close> show ?thesis by blast
    qed
  qed
qed


lemma checkDependencies_closed:
  assumes "iteration_order ts ks"
  shows "(checkDependencies ts ks = None) = closed_graph ts"
  using assms unfolding checkDependencies_None closed_graph_def depends_on_def iteration_order_def
  by (auto simp: dom_def) blast

lemma card_diff_insert_le:
  assumes "finite D" "v \<in> D" "v \<notin> V" "card (D - V) \<le> Suc n"
  shows "card (D - insert v V) \<le> n"
proof -
  have "D - insert v V = (D - V) - {v}" by blast
  moreover have "v \<in> D - V" using assms by blast
  moreover have "finite (D - V)" using assms by blast
  ultimately show ?thesis using assms(4) by (simp add: card_Diff_singleton)
qed

lemma dfs_total:
  "finite (dom ts) \<Longrightarrow> closed_graph ts \<Longrightarrow> v \<in> dom ts \<Longrightarrow> v \<notin> fst st \<Longrightarrow>
     card (dom ts - fst st) \<le> n \<Longrightarrow>
     \<exists>b st'. hasCycle n ts v st = Some (b, st') \<and> fst st \<subseteq> fst st'"
  "finite (dom ts) \<Longrightarrow> closed_graph ts \<Longrightarrow> set ds \<subseteq> dom ts \<Longrightarrow>
     card (dom ts - fst st) \<le> n \<Longrightarrow>
     \<exists>b st'. cycleDeps n ts ds v st = Some (b, st') \<and> fst st \<subseteq> fst st'"
proof (induction n ts v st and n ts ds v st rule: hasCycle_cycleDeps.induct)
  case (1 ts taskID st)
  then have "taskID \<in> dom ts - fst st" by blast
  moreover have "finite (dom ts - fst st)" using 1 by blast
  ultimately have "card (dom ts - fst st) \<noteq> 0" by auto
  with 1 show ?case by simp
next
  case (2 n ts taskID visited recStack)
  from "2.prems"(3) obtain task where t: "ts taskID = Some task" by blast
  have sub: "set (t_Dependencies task) \<subseteq> dom ts"
    using "2.prems"(2) t unfolding closed_graph_def depends_on_def by blast
  have c: "card (dom ts - fst (insert taskID visited, insert taskID recStack)) \<le> n"
    using card_diff_insert_le[OF "2.prems"(1) "2.prems"(3)] "2.prems"(4,5) by simp
  from "2.IH"[OF t "2.prems"(1,2) sub c] obtain b st' where
    "cycleDeps n ts (t_Dependencies task) taskID (insert taskID visited, insert taskID recStack)
       = Some (b, st')" "insert taskID visited \<subseteq> fst st'" by auto
  then show ?case using t by auto
next
  case (3 n ts taskID visited recStack)
  show ?case by auto
next
  case (4 n ts depID rest taskID visited recStack)
  have rest: "set rest \<subseteq> dom ts" and d: "depID \<in> dom ts" using "4.prems"(3) by auto
  show ?case
  proof (cases "depID \<notin> visited")
    case True
    from "4.IH"(1)[OF True "4.prems"(1,2) d _ "4.prems"(4)] True obtain b st1 where
      h: "hasCycle n ts depID (visited, recStack) = Some (b, st1)" and m: "visited \<subseteq> fst st1"
      by auto
    show ?thesis
    proof (cases b)
      case True
      then show ?thesis using h m \<open>depID \<notin> visited\<close> by auto
    next
      case False
      have "dom ts - fst st1 \<subseteq> dom ts - visited" using m by blast
      then have "card (dom ts - fst st1) \<le> card (dom ts - visited)"
        using "4.prems"(1) by (intro card_mono) auto
      then have c: "card (dom ts - fst st1) \<le> n" using "4.prems"(4) by simp
      from False have bF: "b = False" by simp
      from "4.IH"(2)[OF True h refl bF "4.prems"(1,2) rest c] obtain b' st' where
        "cycleDeps n ts rest taskID st1 = Some (b', st')" "fst st1 \<subseteq> fst st'" by auto
      then show ?thesis using h m False \<open>depID \<notin> visited\<close> by auto
    qed
  next
    case False
    show ?thesis
    proof (cases "depID \<in> recStack")
      case True
      then show ?thesis using False by auto
    next
      case nr: False
      from "4.IH"(3)[OF _ nr "4.prems"(1,2) rest "4.prems"(4)] False
      show ?thesis using nr by simp
    qed
  qed
qed

lemma checkCycles_total:
  assumes "finite (dom ts)" "closed_graph ts" "set ks \<subseteq> dom ts" "card (dom ts) \<le> n"
  shows "checkCycles n ts ks st \<noteq> None"
  using assms(3)
proof (induction ks arbitrary: st)
  case Nil
  then show ?case by simp
next
  case (Cons k ks)
  obtain V R where st: "st = (V, R)" by (cases st)
  have c: "card (dom ts - fst st') \<le> n" for st' :: dfs_state
  proof -
    have "card (dom ts - fst st') \<le> card (dom ts)" using assms(1) by (intro card_mono) auto
    then show ?thesis using assms(4) by simp
  qed
  show ?case
  proof (cases "k \<notin> V")
    case True
    from dfs_total(1)[OF assms(1,2), of k "(V, R)" n] Cons.prems True c[of "(V, R)"]
    obtain b st1 where h: "hasCycle n ts k (V, R) = Some (b, st1)" by auto
    obtain V1 R1 where st1: "st1 = (V1, R1)" by (cases st1)
    show ?thesis using h True st st1 Cons.IH[of st1] Cons.prems by (cases b) auto
  next
    case False
    then show ?thesis using st Cons.IH[of st] Cons.prems by simp
  qed
qed

lemma checkCycles_error: "checkCycles n ts ks st = Some (Some e) \<Longrightarrow> e = CycleDetected"
proof (induction ks arbitrary: st)
  case Nil
  then show ?case by simp
next
  case (Cons k ks)
  obtain V R where st: "st = (V, R)" by (cases st)
  show ?case using Cons st by (auto split: if_splits option.splits bool.splits)
qed

lemma checkCycles_nil_acyclic:
  assumes "checkCycles n ts ks st = Some None" "dfs_inv ts st" "snd st = {}"
  shows "\<forall>k \<in> set ks. (k, k) \<notin> (depends_on ts)\<^sup>+"
  using assms
proof (induction ks arbitrary: st)
  case Nil
  then show ?case by simp
next
  case (Cons k ks)
  obtain V R where st: "st = (V, R)" by (cases st)
  have R: "R = {}" using Cons.prems(3) st by simp
  have black: "(x, x) \<notin> (depends_on ts)\<^sup>+" if "dfs_inv ts (V', {})" "x \<in> V'" for x V'
    using that unfolding dfs_inv_def prod.case by blast
  show ?case
  proof (cases "k \<notin> V")
    case True
    from Cons.prems(1) True st obtain st1 where
      h: "hasCycle n ts k (V, R) = Some (False, st1)"
      and c: "checkCycles n ts ks st1 = Some None"
      by (auto split: option.splits bool.splits)
    from dfs_false(1)[OF h] Cons.prems(2) st True
    have r: "snd st1 = R" "k \<in> fst st1" "dfs_inv ts st1" by simp_all
    have "\<forall>k \<in> set ks. (k, k) \<notin> (depends_on ts)\<^sup>+"
      using Cons.IH[OF c r(3)] r(1) R by simp
    moreover have "(k, k) \<notin> (depends_on ts)\<^sup>+"
      using black[of "fst st1" k] r R by (cases st1) simp
    ultimately show ?thesis by simp
  next
    case False
    then have c: "checkCycles n ts ks st = Some None" using Cons.prems(1) st by simp
    have "\<forall>k \<in> set ks. (k, k) \<notin> (depends_on ts)\<^sup>+"
      using Cons.IH[OF c Cons.prems(2,3)] .
    moreover have "(k, k) \<notin> (depends_on ts)\<^sup>+"
      using black[of V k] Cons.prems(2) st R False by simp
    ultimately show ?thesis by simp
  qed
qed

lemma dfs_inv_init: "dfs_inv ts ({}, {})"
  unfolding dfs_inv_def by simp

lemma cycle_in_dom: "(c, c) \<in> (depends_on ts)\<^sup>+ \<Longrightarrow> c \<in> dom ts"
  by (auto dest!: tranclD simp: depends_on_def)

lemma validateDAG_nil_acyclic:
  assumes "iteration_order ts order2" "validateDAG n order1 order2 ts = Some None"
  shows "(c, c) \<notin> (depends_on ts)\<^sup>+"
proof
  assume cyc: "(c, c) \<in> (depends_on ts)\<^sup>+"
  from assms(2) have cc: "checkCycles n ts order2 ({}, {}) = Some None"
    by (auto simp: validateDAG_def split: option.splits)
  from cycle_in_dom[OF cyc] assms(1) have "c \<in> set order2" by (simp add: iteration_order_def)
  with checkCycles_nil_acyclic[OF cc dfs_inv_init] cyc show False by simp
qed

lemma validateDAG_cycle:
  assumes "iteration_order ts order1" "iteration_order ts order2" "closed_graph ts"
    "(c, c) \<in> (depends_on ts)\<^sup>+" "length order2 \<le> n"
  shows "validateDAG n order1 order2 ts = Some (Some CycleDetected)"
proof -
  have fin: "finite (dom ts)" using assms(2) unfolding iteration_order_def by (metis List.finite_set)
  have card: "card (dom ts) \<le> n"
    using assms(2,5) unfolding iteration_order_def by (metis distinct_card)
  have cd: "checkDependencies ts order1 = None"
    using checkDependencies_closed[OF assms(1)] assms(3) by simp
  then have v: "validateDAG n order1 order2 ts = checkCycles n ts order2 ({}, {})"
    by (simp add: validateDAG_def)
  have sub: "set order2 \<subseteq> dom ts" using assms(2) by (simp add: iteration_order_def)
  from checkCycles_total[OF fin assms(3) sub card, of "({}, {})"]
  obtain r where r: "checkCycles n ts order2 ({}, {}) = Some r" by auto
  show ?thesis
  proof (cases r)
    case None
    with r v validateDAG_nil_acyclic[OF assms(2), of n order1 c] assms(4) show ?thesis by simp
  next
    case (Some e)
    with r checkCycles_error[of n ts order2 "({}, {})" e] v show ?thesis by simp
  qed
qed

lemma validateDAG_missing:
  assumes "iteration_order ts order1" "\<not> closed_graph ts"
  shows "\<exists>(task :: Task) d. validateDAG n order1 order2 ts = Some (Some (NonExistentDependency (t_ID task) d))
           \<and> d \<in> set (t_Dependencies task) \<and> ts d = None"
proof -
  from checkDependencies_closed[OF assms(1)] assms(2)
  obtain e where e: "checkDependencies ts order1 = Some e" by auto
  from checkDependencies_Some[OF e] obtain k task d where
    "ts k = Some task" "d \<in> set (t_Dependencies task)" "ts d = None"
    "e = NonExistentDependency (t_ID task) d" by blast
  then have "validateDAG n order1 order2 ts = Some (Some (NonExistentDependency (t_ID task) d))
           \<and> d \<in> set (t_Dependencies task) \<and> ts d = None"
    using e by (simp add: validateDAG_def)
  then show ?thesis by blast
qed


lemma validateDAG_closed_error:
  assumes "iteration_order ts order1" "closed_graph ts"
    "validateDAG n order1 order2 ts = Some (Some e)"
  shows "e = CycleDetected"
proof -
  have "checkDependencies ts order1 = None"
    using checkDependencies_closed[OF assms(1)] assms(2) by simp
  then have "checkCycles n ts order2 ({}, {}) = Some (Some e)"
    using assms(3) by (simp add: validateDAG_def)
  then show ?thesis by (rule checkCycles_error)
qed

lemma Execute_invalid_only:
  assumes "\<not> closed_graph ts \<or> (c, c) \<in> (depends_on ts)\<^sup>+" "Execute cfg ts r"
  shows "\<exists>e. r = ((None, Some e), init_state ts)
           \<and> (closed_graph ts \<longrightarrow> e = CycleDetected)
           \<and> (\<not> closed_graph ts \<longrightarrow>
                 (\<exists>(task :: Task) d. e = NonExistentDependency (t_ID task) d
                    \<and> d \<in> set (t_Dependencies task) \<and> ts d = None))"
  using assms(2)
proof (cases rule: Execute.cases)
  case (invalid order1 order2 n e)
  have 1: "closed_graph ts \<longrightarrow> e = CycleDetected"
    using validateDAG_closed_error[OF invalid(2) _ invalid(4)] by blast
  have 2: "\<not> closed_graph ts \<longrightarrow>
                 (\<exists>(task :: Task) d. e = NonExistentDependency (t_ID task) d
                    \<and> d \<in> set (t_Dependencies task) \<and> ts d = None)"
  proof
    assume "\<not> closed_graph ts"
    from validateDAG_missing[OF invalid(2) this, of n order2] invalid(4)
    show "\<exists>(task :: Task) d. e = NonExistentDependency (t_ID task) d
                    \<and> d \<in> set (t_Dependencies task) \<and> ts d = None"
      by auto
  qed
  show ?thesis using invalid(1) 1 2 by blast
next
  case (completed order1 order2 n s)
  have "closed_graph ts"
  proof (rule ccontr)
    assume "\<not> closed_graph ts"
    from validateDAG_missing[OF completed(2) this, of n order2] completed(4)
    show False by auto
  qed
  moreover have "(c, c) \<notin> (depends_on ts)\<^sup>+"
    using validateDAG_nil_acyclic[OF completed(3) completed(4)] .
  ultimately show ?thesis using assms(1) by blast
qed

text \<open>The examples: a cycle of three tasks, and a task with an unknown dependency.\<close>


lemma example_cycle_order: "iteration_order [''A'' \<mapsto> cpuTask ''A'' [''C''], ''B'' \<mapsto> cpuTask ''B'' [''A''],
         ''C'' \<mapsto> cpuTask ''C'' [''B'']] [''A'', ''B'', ''C'']"
  by (auto simp: iteration_order_def)

lemma example_cycle_closed: "closed_graph [''A'' \<mapsto> cpuTask ''A'' [''C''], ''B'' \<mapsto> cpuTask ''B'' [''A''],
         ''C'' \<mapsto> cpuTask ''C'' [''B'']]"
  by (auto simp: closed_graph_def depends_on_def cpuTask_def split: if_splits)

lemma example_cycle_cycle: "(''A'', ''A'') \<in> (depends_on [''A'' \<mapsto> cpuTask ''A'' [''C''], ''B'' \<mapsto> cpuTask ''B'' [''A''],
         ''C'' \<mapsto> cpuTask ''C'' [''B'']])\<^sup>+"
proof -
  let ?ts = "[''A'' \<mapsto> cpuTask ''A'' [''C''], ''B'' \<mapsto> cpuTask ''B'' [''A''],
         ''C'' \<mapsto> cpuTask ''C'' [''B'']]"
  have "(''A'', ''C'') \<in> depends_on ?ts" "(''C'', ''B'') \<in> depends_on ?ts"
    "(''B'', ''A'') \<in> depends_on ?ts"
    by (simp_all add: depends_on_def cpuTask_def)
  then show ?thesis by (meson trancl.intros)
qed

lemma example_missing_order: "iteration_order [''A'' \<mapsto> cpuTask ''A'' [''X'']] [''A'']"
  by (auto simp: iteration_order_def)

lemma example_missing_open: "\<not> closed_graph [''A'' \<mapsto> cpuTask ''A'' [''X'']]"
  by (auto simp: closed_graph_def depends_on_def cpuTask_def)


subsection \<open>C5: validation failures abort the execution\<close>

text \<open>
  Claim C5. Whatever the order in which the map is visited: if some dependency id refers
  to no admitted task, \<open>validateDAG\<close> returns the unknown-dependency error; if every
  dependency id is admitted and the graph has a directed cycle, it returns (run to a
  depth of at least the number of tasks) the cycle error. In either case every way for
  \<open>Execute\<close> to return is to return that error with no results (nil), from the
  untouched initial state: no task was dispatched or started.
\<close>

theorem validation_failure_aborts_execute:
  assumes "iteration_order ts order1" "iteration_order ts order2"
  shows
   "(\<not> closed_graph ts \<longrightarrow>
       (\<exists>(task :: Task) d.
           validateDAG n order1 order2 ts = Some (Some (NonExistentDependency (t_ID task) d))
         \<and> d \<in> set (t_Dependencies task) \<and> ts d = None))
  \<and> (closed_graph ts \<and> (c, c) \<in> (depends_on ts)\<^sup>+ \<and> length order2 \<le> n \<longrightarrow>
       validateDAG n order1 order2 ts = Some (Some CycleDetected))
  \<and> (validateDAG n order1 order2 ts = Some (Some e) \<longrightarrow>
       Execute cfg ts ((None, Some e), init_state ts))
  \<and> (\<not> closed_graph ts \<or> (c, c) \<in> (depends_on ts)\<^sup>+ \<longrightarrow>
       (\<forall>r. Execute cfg ts r \<longrightarrow>
          (\<exists>e'. r = ((None, Some e'), init_state ts)
             \<and> (closed_graph ts \<longrightarrow> e' = CycleDetected)
             \<and> (\<not> closed_graph ts \<longrightarrow>
                   (\<exists>(task :: Task) d. e' = NonExistentDependency (t_ID task) d
                      \<and> d \<in> set (t_Dependencies task) \<and> ts d = None))))
       \<and> trace (init_state ts) = [] \<and> workers (init_state ts) = []
       \<and> tasks (init_state ts) = ts)"
proof (intro conjI impI allI)
  assume "\<not> closed_graph ts"
  then show "\<exists>(task :: Task) d.
           validateDAG n order1 order2 ts = Some (Some (NonExistentDependency (t_ID task) d))
         \<and> d \<in> set (t_Dependencies task) \<and> ts d = None"
    by (rule validateDAG_missing[OF assms(1)])
next
  assume "closed_graph ts \<and> (c, c) \<in> (depends_on ts)\<^sup>+ \<and> length order2 \<le> n"
  then show "validateDAG n order1 order2 ts = Some (Some CycleDetected)"
    using validateDAG_cycle[OF assms] by blast
next
  assume "validateDAG n order1 order2 ts = Some (Some e)"
  then show "Execute cfg ts ((None, Some e), init_state ts)"
    using Execute.invalid[OF assms] by blast
next
  fix r
  assume "\<not> closed_graph ts \<or> (c, c) \<in> (depends_on ts)\<^sup>+" "Execute cfg ts r"
  then show "\<exists>e'. r = ((None, Some e'), init_state ts)
             \<and> (closed_graph ts \<longrightarrow> e' = CycleDetected)
             \<and> (\<not> closed_graph ts \<longrightarrow>
                   (\<exists>(task :: Task) d. e' = NonExistentDependency (t_ID task) d
                      \<and> d \<in> set (t_Dependencies task) \<and> ts d = None))"
    by (rule Execute_invalid_only)
qed (simp_all add: init_state_def)

theorem validation_failure_aborts_execute_witness:
  "validateDAG 3 [''A'', ''B'', ''C''] [''A'', ''B'', ''C'']
      [''A'' \<mapsto> cpuTask ''A'' [''C''], ''B'' \<mapsto> cpuTask ''B'' [''A''],
       ''C'' \<mapsto> cpuTask ''C'' [''B'']] = Some (Some CycleDetected)
   \<and> Execute (twoCpus 3)
      [''A'' \<mapsto> cpuTask ''A'' [''C''], ''B'' \<mapsto> cpuTask ''B'' [''A''],
       ''C'' \<mapsto> cpuTask ''C'' [''B'']]
      ((None, Some CycleDetected),
       init_state [''A'' \<mapsto> cpuTask ''A'' [''C''], ''B'' \<mapsto> cpuTask ''B'' [''A''],
                   ''C'' \<mapsto> cpuTask ''C'' [''B'']])
   \<and> (\<exists>(task :: Task) d.
         validateDAG 1 [''A''] [''A''] [''A'' \<mapsto> cpuTask ''A'' [''X'']]
           = Some (Some (NonExistentDependency (t_ID task) d)))"
proof -
  let ?cyc = "[''A'' \<mapsto> cpuTask ''A'' [''C''], ''B'' \<mapsto> cpuTask ''B'' [''A''],
       ''C'' \<mapsto> cpuTask ''C'' [''B'']]"
  let ?o = "[''A'', ''B'', ''C'']"
  note c = validation_failure_aborts_execute[OF example_cycle_order example_cycle_order,
      of 3 "''A''" CycleDetected "twoCpus 3"]
  have v: "validateDAG 3 ?o ?o ?cyc = Some (Some CycleDetected)"
    using c example_cycle_closed example_cycle_cycle by simp
  have e: "Execute (twoCpus 3) ?cyc ((None, Some CycleDetected), init_state ?cyc)"
    using c v by blast
  have m: "\<exists>(task :: Task) d.
         validateDAG 1 [''A''] [''A''] [''A'' \<mapsto> cpuTask ''A'' [''X'']]
           = Some (Some (NonExistentDependency (t_ID task) d))"
    using validation_failure_aborts_execute[OF example_missing_order example_missing_order,
      of 1 "''A''" CycleDetected "twoCpus 1"] example_missing_open by blast
  from v e m show ?thesis by blast
qed

section \<open>The orchestrator: steps and reachable states\<close>

lemma fireE [consumes 1, case_names Tick SchedCheck SchedGetReady SchedDispatch SchedSkip
    SchedSleep WorkerStart WorkerRunReturns WorkerNotify WorkerRelease SenderNotify HandlerReceive]:
  assumes "fire cfg a s = Some s'"
  obtains
    (Tick) d where "a = Tick d" "0 < d" "s' = s\<lparr>now := now s + d\<rparr>"
  | (SchedCheck) n order finished ts' announced where
      "a = SchedCheck n order" "scheduler s = AtCheck" "iteration_order (tasks s) order"
      "allTasksCompleteOrBlocked n order (tasks s) [] = Some (finished, ts', announced)"
      "s' = s\<lparr>tasks := ts', senders := senders s @ announced,
                trace := rev (map Announced announced) @ trace s,
                scheduler := (if finished then Exited else AtGetReady)\<rparr>"
  | (SchedGetReady) order ts' ready where
      "a = SchedGetReady order" "scheduler s = AtGetReady" "iteration_order (tasks s) order"
      "getReadyTasks order (tasks s) = (ts', ready)"
      "s' = s\<lparr>tasks := ts', scheduler := AtDispatch ready\<rparr>"
  | (SchedDispatch) k rest task slots' where
      "a = SchedDispatch" "scheduler s = AtDispatch (k # rest)" "tasks s k = Some task"
      "tryAcquireResource (cfg_constraints cfg) (activeSlots s) (t_Resource task) = (True, slots')"
      "s' = s\<lparr>activeSlots := slots',
                workers := workers s @ [\<lparr>w_task = k, w_resource = t_Resource task, w_phase = Spawned\<rparr>],
                trace := Dispatched k # trace s,
                scheduler := AtDispatch rest\<rparr>"
  | (SchedSkip) k rest task where
      "a = SchedDispatch" "scheduler s = AtDispatch (k # rest)" "tasks s k = Some task"
      "tryAcquireResource (cfg_constraints cfg) (activeSlots s) (t_Resource task)
         = (False, activeSlots s)"
      "s' = s\<lparr>scheduler := AtDispatch rest\<rparr>"
  | (SchedSleep) d where
      "a = SchedSleep d" "scheduler s = AtDispatch []" "10 \<le> d"
      "s' = s\<lparr>scheduler := AtCheck, now := now s + d\<rparr>"
  | (WorkerStart) i task where
      "a = WorkerStart i" "i < length (workers s)" "w_phase (workers s ! i) = Spawned"
      "tasks s (w_task (workers s ! i)) = Some task"
      "s' = s\<lparr>tasks := (tasks s)(w_task (workers s ! i) \<mapsto> markRunning (now s) task),
                workers := (workers s)[i := (workers s ! i)\<lparr>w_phase := InCommand\<rparr>],
                trace := Started (w_task (workers s ! i)) (now s) # trace s\<rparr>"
  | (WorkerRunReturns) i err task where
      "a = WorkerRunReturns i err" "i < length (workers s)" "w_phase (workers s ! i) = InCommand"
      "tasks s (w_task (workers s ! i)) = Some task"
      "s' = s\<lparr>tasks := (tasks s)(w_task (workers s ! i) \<mapsto> recordOutcome (now s) err task),
                workers := (workers s)[i := (workers s ! i)\<lparr>w_phase := Recorded\<rparr>],
                trace := Ended (w_task (workers s ! i)) (err = None) (now s) # trace s\<rparr>"
  | (WorkerNotify) i where
      "a = WorkerNotify i" "i < length (workers s)" "w_phase (workers s ! i) = Recorded"
      "length (completeCh s) < completeCh_capacity"
      "s' = s\<lparr>completeCh := completeCh s @ [w_task (workers s ! i)],
                workers := (workers s)[i := (workers s ! i)\<lparr>w_phase := Notified\<rparr>],
                trace := Enqueued (w_task (workers s ! i)) # trace s\<rparr>"
  | (WorkerRelease) i where
      "a = WorkerRelease i" "i < length (workers s)" "w_phase (workers s ! i) = Notified"
      "s' = s\<lparr>activeSlots := releaseResource (activeSlots s) (w_resource (workers s ! i)),
                workers := take i (workers s) @ drop (Suc i) (workers s)\<rparr>"
  | (SenderNotify) i where
      "a = SenderNotify i" "i < length (senders s)" "length (completeCh s) < completeCh_capacity"
      "s' = s\<lparr>completeCh := completeCh s @ [senders s ! i],
                senders := take i (senders s) @ drop (Suc i) (senders s),
                trace := Enqueued (senders s ! i) # trace s\<rparr>"
  | (HandlerReceive) k rest task where
      "a = HandlerReceive" "\<not> doneSent s" "completeCh s = k # rest" "tasks s k = Some task"
      "s' = s\<lparr>completeCh := rest,
                completedTasks := completedTasks s + 1,
                exec_results := (case t_Result task of
                                   None \<Rightarrow> exec_results s
                                 | Some r \<Rightarrow> exec_results s @ [r]),
                doneSent := (completedTasks s + 1 = cfg_totalTasks cfg)\<rparr>"
proof (cases a)
  case (Tick d)
  then show ?thesis using assms that(1) by (auto split: if_splits)
next
  case (SchedCheck n order)
  then show ?thesis using assms that(2) by (auto split: if_splits option.splits)
next
  case (SchedGetReady order)
  then show ?thesis using assms that(3) by (auto split: if_splits prod.splits)
next
  case SchedDispatch
  from assms SchedDispatch obtain k rest where pc: "scheduler s = AtDispatch (k # rest)"
    by (auto split: scheduler_pc.splits list.splits)
  from assms SchedDispatch pc obtain task where t: "tasks s k = Some task"
    by (auto split: option.splits)
  obtain ok slots' where acq:
    "tryAcquireResource (cfg_constraints cfg) (activeSlots s) (t_Resource task) = (ok, slots')"
    by (cases "tryAcquireResource (cfg_constraints cfg) (activeSlots s) (t_Resource task)")
  show ?thesis
  proof (cases ok)
    case True
    then show ?thesis using assms SchedDispatch pc t acq that(4) by auto
  next
    case False
    then have "slots' = activeSlots s"
      using acq by (auto simp: tryAcquireResource_def split: option.splits if_splits)
    then show ?thesis using assms SchedDispatch pc t acq False that(5) by auto
  qed
next
  case (SchedSleep d)
  then show ?thesis using assms that(6) by (auto split: if_splits)
next
  case (WorkerStart i)
  then show ?thesis using assms that(7) by (auto split: if_splits option.splits)
next
  case (WorkerRunReturns i err)
  then show ?thesis using assms that(8) by (auto split: if_splits option.splits)
next
  case (WorkerNotify i)
  then show ?thesis using assms that(9) by (auto split: if_splits)
next
  case (WorkerRelease i)
  then show ?thesis using assms that(10) by (auto split: if_splits)
next
  case (SenderNotify i)
  then show ?thesis using assms that(11) by (auto split: if_splits)
next
  case HandlerReceive
  then show ?thesis using assms that(12) by (auto split: if_splits list.splits option.splits)
qed


lemma reachable_induct [consumes 1, case_names init step]:
  assumes "reachable cfg s0 s" "P s0"
    "\<And>s a s'. reachable cfg s0 s \<Longrightarrow> P s \<Longrightarrow> fire cfg a s = Some s' \<Longrightarrow> P s'"
  shows "P s"
  using assms(1) unfolding reachable_def
proof (induction rule: rtranclp_induct)
  case base
  then show ?case by (rule assms(2))
next
  case (step y z)
  from step(2) obtain a where "fire cfg a y = Some z" by (auto simp: step_def)
  then show ?case using assms(3) step(1,3) unfolding reachable_def by blast
qed

lemma run_reachable: "run cfg as s = Some s' \<Longrightarrow> reachable cfg s s'"
proof (induction as arbitrary: s)
  case Nil
  then show ?case by (simp add: reachable_def)
next
  case (Cons a as)
  then obtain s1 where f: "fire cfg a s = Some s1" and r: "run cfg as s1 = Some s'"
    by (auto split: option.splits)
  have "step cfg s s1" using f by (auto simp: step_def)
  moreover have "reachable cfg s1 s'" using Cons.IH[OF r] .
  ultimately show ?case unfolding reachable_def by (rule converse_rtranclp_into_rtranclp)
qed

lemma count_list_update_same:
  assumes "i < length xs" "f y = f (xs ! i)"
  shows "count_list (map f (xs[i := y])) r = count_list (map f xs) r"
proof -
  have "map f (xs[i := y]) = (map f xs)[i := f (xs ! i)]" using assms by (simp add: map_update)
  also have "\<dots> = map f xs" using assms(1) by (simp add: list_update_same_conv)
  finally show ?thesis by simp
qed

lemma count_list_remove_nth:
  assumes "i < length xs"
  shows "count_list (map f xs) r
       = count_list (map f (take i xs @ drop (Suc i) xs)) r + (if f (xs ! i) = r then 1 else 0)"
proof -
  have "xs = take i xs @ xs ! i # drop (Suc i) xs" using assms by (rule id_take_nth_drop)
  then have "count_list (map f xs) r
      = count_list (map f (take i xs @ xs ! i # drop (Suc i) xs)) r" by simp
  also have "\<dots> = count_list (map f (take i xs @ drop (Suc i) xs)) r
        + (if f (xs ! i) = r then 1 else 0)" by simp
  finally show ?thesis .
qed

lemma slots_inv_frame:
  assumes "slots_inv cfg s" "\<And>r. holders s' r = holders s r" "activeSlots s' = activeSlots s"
  shows "slots_inv cfg s'"
  unfolding slots_inv_def
proof
  fix r
  show "case cfg_constraints cfg r of None \<Rightarrow> activeSlots s' r = 0
        | Some c \<Rightarrow> activeSlots s' r = int (holders s' r) \<and> activeSlots s' r \<le> max 0 (rc_MaxSlots c)"
    using assms(1)[unfolded slots_inv_def, rule_format, of r] assms(2)[of r] assms(3)
    by (simp split: option.splits)
qed

lemma slots_inv_init: "slots_inv cfg (init_state ts)"
  by (simp add: slots_inv_def init_state_def holders_def split: option.splits)

lemma slots_inv_step:
  assumes "slots_inv cfg s" "fire cfg a s = Some s'"
  shows "slots_inv cfg s'"
  using assms(2)
proof (cases rule: fireE)
  case (SchedDispatch k rest task slots')
  let ?r0 = "t_Resource task"
  have h: "holders s' r = holders s r + (if r = ?r0 then 1 else 0)" for r
    using SchedDispatch(5) by (simp add: holders_def)
  show ?thesis
  proof (cases "cfg_constraints cfg ?r0")
    case None
    then have "slots' = activeSlots s" using SchedDispatch(4) by (simp add: tryAcquireResource_def)
    then have a: "activeSlots s' = activeSlots s" using SchedDispatch(5) by simp
    show ?thesis unfolding slots_inv_def
    proof
      fix r
      show "case cfg_constraints cfg r of None \<Rightarrow> activeSlots s' r = 0
          | Some c \<Rightarrow> activeSlots s' r = int (holders s' r) \<and> activeSlots s' r \<le> max 0 (rc_MaxSlots c)"
        using assms(1)[unfolded slots_inv_def, rule_format, of r] None a h[of r]
        by (cases "r = ?r0") (auto split: option.splits)
    qed
  next
    case (Some c)
    then have lt: "activeSlots s ?r0 < rc_MaxSlots c"
      and sl: "slots' = (activeSlots s)(?r0 := activeSlots s ?r0 + 1)"
      using SchedDispatch(4) by (auto simp: tryAcquireResource_def split: if_splits)
    have a: "activeSlots s' = (activeSlots s)(?r0 := activeSlots s ?r0 + 1)"
      using SchedDispatch(5) sl by simp
    show ?thesis unfolding slots_inv_def
    proof
      fix r
      show "case cfg_constraints cfg r of None \<Rightarrow> activeSlots s' r = 0
          | Some c \<Rightarrow> activeSlots s' r = int (holders s' r) \<and> activeSlots s' r \<le> max 0 (rc_MaxSlots c)"
        using assms(1)[unfolded slots_inv_def, rule_format, of r] Some a h[of r] lt
        by (cases "r = ?r0") (auto split: option.splits)
    qed
  qed
next
  case (WorkerRelease i)
  let ?r0 = "w_resource (workers s ! i)"
  have h: "holders s r = holders s' r + (if r = ?r0 then 1 else 0)" for r
    using count_list_remove_nth[OF WorkerRelease(2), of w_resource r] WorkerRelease(4)
    by (auto simp: holders_def)
  have a: "activeSlots s' = releaseResource (activeSlots s) ?r0" using WorkerRelease(4) by simp
  show ?thesis unfolding slots_inv_def
  proof
    fix r
    show "case cfg_constraints cfg r of None \<Rightarrow> activeSlots s' r = 0
        | Some c \<Rightarrow> activeSlots s' r = int (holders s' r) \<and> activeSlots s' r \<le> max 0 (rc_MaxSlots c)"
      using assms(1)[unfolded slots_inv_def, rule_format, of r] a h[of r]
      by (cases "r = ?r0") (auto simp: releaseResource_def split: option.splits)
  qed
next
  case (WorkerStart i task)
  have "holders s' r = holders s r" for r
    using WorkerStart(2,5) count_list_update_same[of i "workers s" w_resource] by (simp add: holders_def)
  moreover have "activeSlots s' = activeSlots s" using WorkerStart(5) by simp
  ultimately show ?thesis using slots_inv_frame[OF assms(1)] by blast
next
  case (WorkerRunReturns i err task)
  have "holders s' r = holders s r" for r
    using WorkerRunReturns(2,5) count_list_update_same[of i "workers s" w_resource]
    by (simp add: holders_def)
  moreover have "activeSlots s' = activeSlots s" using WorkerRunReturns(5) by simp
  ultimately show ?thesis using slots_inv_frame[OF assms(1)] by blast
next
  case (WorkerNotify i)
  have "holders s' r = holders s r" for r
    using WorkerNotify(2,5) count_list_update_same[of i "workers s" w_resource]
    by (simp add: holders_def)
  moreover have "activeSlots s' = activeSlots s" using WorkerNotify(5) by simp
  ultimately show ?thesis using slots_inv_frame[OF assms(1)] by blast
qed (rule slots_inv_frame[OF assms(1)]; simp add: holders_def)+

lemma slots_inv_reachable:
  assumes "reachable cfg (init_state ts) s"
  shows "slots_inv cfg s"
  using assms by (induction rule: reachable_induct) (auto intro: slots_inv_init slots_inv_step)

section \<open>The supervisor's scans\<close>

lemma dependenciesMetLoop_iff:
  "dependenciesMetLoop ts ds = (\<forall>d \<in> set ds. \<exists>dt. ts d = Some dt \<and> t_Status dt = TaskCompleted)"
  by (induction ds) (auto split: option.splits)

lemma dependenciesMet_iff: "dependenciesMet ts task = deps_completed ts task"
  by (simp add: dependenciesMet_def deps_completed_def dependenciesMetLoop_iff)

lemma deps_completed_promote:
  assumes "ts k = Some t" "t_Status t = TaskPending"
  shows "deps_completed (ts(k \<mapsto> t\<lparr>t_Status := TaskReady\<rparr>)) task = deps_completed ts task"
  using assms by (auto simp: deps_completed_def)

lemma getReadyTasks_effect:
  "getReadyTasks ks ts = (ts', ready) \<Longrightarrow>
     (\<forall>k. ts' k = ts k
          \<or> (\<exists>t. ts k = Some t \<and> t_Status t = TaskPending \<and> deps_completed ts t
                \<and> ts' k = Some (t\<lparr>t_Status := TaskReady\<rparr>)))
   \<and> (\<forall>k \<in> set ready. \<exists>t. ts k = Some t
          \<and> (t_Status t = TaskReady \<or> (t_Status t = TaskPending \<and> deps_completed ts t)))"
proof (induction ks arbitrary: ts ts' ready)
  case Nil
  then show ?case by simp
next
  case (Cons k ks)
  show ?case
  proof (cases "ts k")
    case None
    then show ?thesis using Cons by simp
  next
    case (Some task)
    show ?thesis
    proof (cases "t_Status task = TaskPending \<and> dependenciesMet ts task")
      case True
      let ?ts1 = "ts(k \<mapsto> task\<lparr>t_Status := TaskReady\<rparr>)"
      from Cons.prems Some True obtain ready' where
        r: "getReadyTasks ks ?ts1 = (ts', ready')" and rd: "ready = k # ready'"
        by (auto split: prod.splits)
      note ih = Cons.IH[OF r]
      have dc: "deps_completed ?ts1 t = deps_completed ts t" for t
        using deps_completed_promote[of ts k task t] Some True by simp
      have dck: "deps_completed ts task" using True by (simp add: dependenciesMet_iff)
      have 1: "ts' j = ts j
          \<or> (\<exists>t. ts j = Some t \<and> t_Status t = TaskPending \<and> deps_completed ts t
                \<and> ts' j = Some (t\<lparr>t_Status := TaskReady\<rparr>))" for j
      proof (cases "j = k")
        case True
        from ih[THEN conjunct1, rule_format, of k] have "ts' k = ?ts1 k" by auto
        then show ?thesis using True Some \<open>t_Status task = TaskPending \<and> dependenciesMet ts task\<close> dck
          by auto
      next
        case False
        then show ?thesis using ih[THEN conjunct1, rule_format, of j] dc by auto
      qed
      have 2: "\<exists>t. ts j = Some t
          \<and> (t_Status t = TaskReady \<or> (t_Status t = TaskPending \<and> deps_completed ts t))"
        if "j \<in> set ready" for j
      proof (cases "j = k")
        case True
        then show ?thesis using Some \<open>t_Status task = TaskPending \<and> dependenciesMet ts task\<close> dck
          by auto
      next
        case False
        then have "j \<in> set ready'" using that rd by simp
        from ih[THEN conjunct2, rule_format, OF this] False dc show ?thesis by auto
      qed
      show ?thesis using 1 2 by blast
    next
      case nprom: False
      show ?thesis
      proof (cases "t_Status task = TaskReady")
        case True
        from Cons.prems Some True obtain ready' where
          r: "getReadyTasks ks ts = (ts', ready')" and rd: "ready = k # ready'"
          by (auto split: prod.splits)
        from Cons.IH[OF r] rd Some True show ?thesis by auto
      next
        case False
        then have "getReadyTasks ks ts = (ts', ready)"
          using Cons.prems Some nprom by (auto split: if_splits)
        from Cons.IH[OF this] show ?thesis by auto
      qed
    qed
  qed
qed

lemma allTCB_effect:
  "allTasksCompleteOrBlocked n ks ts ann = Some (b, ts', ann') \<Longrightarrow>
     (\<forall>k. ts' k = ts k
          \<or> (\<exists>t. ts k = Some t \<and> (t_Status t = TaskPending \<or> t_Status t = TaskReady)
                \<and> ts' k = Some (markDependencyFailed t) \<and> t_ID t \<in> set ann'))
   \<and> set ann \<subseteq> set ann'
   \<and> (\<forall>i \<in> set ann'. i \<in> set ann \<or> (\<exists>k t. ts k = Some t \<and> t_ID t = i
          \<and> (t_Status t = TaskPending \<or> t_Status t = TaskReady)
          \<and> ts' k = Some (markDependencyFailed t)))
   \<and> (b \<longrightarrow> (\<forall>k \<in> set ks. \<forall>t. ts' k = Some t \<longrightarrow>
                t_Status t = TaskCompleted \<or> t_Status t = TaskFailed))"
proof (induction ks arbitrary: ts ann)
  case Nil
  then show ?case by simp
next
  case (Cons k ks)
  show ?case
  proof (cases "ts k")
    case None
    then have "allTasksCompleteOrBlocked n ks ts ann = Some (b, ts', ann')"
      using Cons.prems by simp
    note ih = Cons.IH[OF this]
    have "ts' k = None" using ih[THEN conjunct1, rule_format, of k] None by auto
    then show ?thesis using ih by auto
  next
    case (Some task)
    consider (terminal) "t_Status task = TaskCompleted \<or> t_Status task = TaskFailed"
      | (waiting) "t_Status task = TaskPending \<or> t_Status task = TaskReady"
      | (running) "t_Status task = TaskRunning"
      by (cases "t_Status task") auto
    then show ?thesis
    proof cases
      case terminal
      then have r: "allTasksCompleteOrBlocked n ks ts ann = Some (b, ts', ann')"
        using Cons.prems Some by simp
      note ih = Cons.IH[OF r]
      have "ts' k = ts k" using ih[THEN conjunct1, rule_format, of k] Some terminal by auto
      then show ?thesis using ih Some terminal by auto
    next
      case running
      then have "b = False" "ts' = ts" "ann' = ann" using Cons.prems Some by auto
      then show ?thesis by simp
    next
      case waiting
      show ?thesis
      proof (cases "hasFailedDependency n ts task")
        case None
        then show ?thesis using Cons.prems Some waiting by auto
      next
        case (Some hf)
        show ?thesis
        proof (cases hf)
          case False
          then have "b = False" "ts' = ts" "ann' = ann"
            using Cons.prems \<open>ts k = Some task\<close> Some waiting by auto
          then show ?thesis by simp
        next
          case True
          let ?ts1 = "ts(k \<mapsto> markDependencyFailed task)"
          have r: "allTasksCompleteOrBlocked n ks ?ts1 (ann @ [t_ID task]) = Some (b, ts', ann')"
            using Cons.prems \<open>ts k = Some task\<close> Some True waiting by auto
          note ih = Cons.IH[OF r]
          have st: "t_Status (markDependencyFailed task) = TaskFailed"
            by (simp add: markDependencyFailed_def)
          have k': "ts' k = Some (markDependencyFailed task)"
            using ih[THEN conjunct1, rule_format, of k] st by auto
          have idin: "t_ID task \<in> set ann'" using ih by auto
          have 1: "\<forall>j. ts' j = ts j
              \<or> (\<exists>t. ts j = Some t \<and> (t_Status t = TaskPending \<or> t_Status t = TaskReady)
                    \<and> ts' j = Some (markDependencyFailed t) \<and> t_ID t \<in> set ann')"
          proof
            fix j
            show "ts' j = ts j
              \<or> (\<exists>t. ts j = Some t \<and> (t_Status t = TaskPending \<or> t_Status t = TaskReady)
                    \<and> ts' j = Some (markDependencyFailed t) \<and> t_ID t \<in> set ann')"
            proof (cases "j = k")
              case True
              then show ?thesis using k' \<open>ts k = Some task\<close> waiting idin by auto
            next
              case False
              then show ?thesis using ih[THEN conjunct1, rule_format, of j] by auto
            qed
          qed
          have 2: "set ann \<subseteq> set ann'" using ih by auto
          have 3: "\<forall>i \<in> set ann'. i \<in> set ann \<or> (\<exists>k t. ts k = Some t \<and> t_ID t = i
                \<and> (t_Status t = TaskPending \<or> t_Status t = TaskReady)
                \<and> ts' k = Some (markDependencyFailed t))"
          proof
            fix i assume "i \<in> set ann'"
            let ?G = "i \<in> set ann \<or> (\<exists>k t. ts k = Some t \<and> t_ID t = i
                \<and> (t_Status t = TaskPending \<or> t_Status t = TaskReady)
                \<and> ts' k = Some (markDependencyFailed t))"
            from \<open>i \<in> set ann'\<close> ih have "i \<in> set (ann @ [t_ID task]) \<or> (\<exists>j t. ?ts1 j = Some t \<and> t_ID t = i
                \<and> (t_Status t = TaskPending \<or> t_Status t = TaskReady)
                \<and> ts' j = Some (markDependencyFailed t))" by blast
            moreover have "?G" if "i \<in> set (ann @ [t_ID task])"
              using that k' \<open>ts k = Some task\<close> waiting by auto
            moreover have "?G" if a: "?ts1 j = Some t" "t_ID t = i"
                "t_Status t = TaskPending \<or> t_Status t = TaskReady"
                "ts' j = Some (markDependencyFailed t)" for j t
            proof -
              have "j \<noteq> k" using a st by auto
              then show ?thesis using a by auto
            qed
            ultimately show "?G" by blast
          qed
          have 4: "b \<longrightarrow> (\<forall>j \<in> set (k # ks). \<forall>t. ts' j = Some t \<longrightarrow>
                t_Status t = TaskCompleted \<or> t_Status t = TaskFailed)"
            using ih k' st by auto
          show ?thesis using 1 2 3 4 by blast
        qed
      qed
    qed
  qed
qed

section \<open>The dependency graph is fixed during an execution\<close>

lemma same_graph_refl: "same_graph ts ts"
  by (simp add: same_graph_def)

lemma same_graph_trans: "same_graph a b \<Longrightarrow> same_graph b c \<Longrightarrow> same_graph a c"
  by (simp add: same_graph_def)

lemma same_graphD:
  assumes "same_graph ts ts'" "ts' k = Some t'"
  shows "\<exists>t. ts k = Some t \<and> t_ID t' = t_ID t \<and> t_Dependencies t' = t_Dependencies t
           \<and> t_Resource t' = t_Resource t \<and> t_CommandOutputPath t' = t_CommandOutputPath t"
proof -
  from assms have "map_option static_part (ts k) = Some (static_part t')"
    unfolding same_graph_def by (metis option.simps(9))
  then obtain t where "ts k = Some t" "static_part t = static_part t'" by auto
  then show ?thesis by (auto simp: static_part_def)
qed

lemma same_graph_sym: "same_graph ts ts' \<Longrightarrow> same_graph ts' ts"
  by (simp add: same_graph_def)

lemma same_graph_pointwise:
  assumes "\<And>k. ts' k = ts k \<or> (\<exists>t t'. ts k = Some t \<and> ts' k = Some t'
      \<and> static_part t' = static_part t)"
  shows "same_graph ts ts'"
  unfolding same_graph_def
proof
  fix k
  show "map_option static_part (ts' k) = map_option static_part (ts k)"
    using assms[of k] by auto
qed

lemma same_graph_update:
  assumes "ts k = Some t" "static_part t' = static_part t"
  shows "same_graph ts (ts(k \<mapsto> t'))"
  by (rule same_graph_pointwise) (use assms in auto)

lemma static_part_simps [simp]:
  "static_part (markDependencyFailed t) = static_part t"
  "static_part (markRunning x t) = static_part t"
  "static_part (recordOutcome x e t) = static_part t"
  "static_part (t\<lparr>t_Status := st\<rparr>) = static_part t"
  by (simp_all add: static_part_def markDependencyFailed_def markRunning_def recordOutcome_def)

lemma getReadyTasks_same_graph:
  assumes "getReadyTasks ks ts = (ts', ready)"
  shows "same_graph ts ts'"
proof (rule same_graph_pointwise)
  fix k
  from getReadyTasks_effect[OF assms, THEN conjunct1, rule_format, of k]
  show "ts' k = ts k \<or> (\<exists>t t'. ts k = Some t \<and> ts' k = Some t'
      \<and> static_part t' = static_part t)"
    by auto
qed

lemma allTCB_same_graph:
  assumes "allTasksCompleteOrBlocked n ks ts ann = Some (b, ts', ann')"
  shows "same_graph ts ts'"
proof (rule same_graph_pointwise)
  fix k
  from allTCB_effect[OF assms, THEN conjunct1, rule_format, of k]
  show "ts' k = ts k \<or> (\<exists>t t'. ts k = Some t \<and> ts' k = Some t'
      \<and> static_part t' = static_part t)"
    by auto
qed

lemma fire_same_graph:
  assumes "fire cfg a s = Some s'"
  shows "same_graph (tasks s) (tasks s')"
  using assms
proof (cases rule: fireE)
  case (SchedCheck n order finished ts' announced)
  then show ?thesis using allTCB_same_graph by simp
next
  case (SchedGetReady order ts' ready)
  then show ?thesis using getReadyTasks_same_graph by simp
next
  case (WorkerStart i task)
  then show ?thesis by (simp add: same_graph_update)
next
  case (WorkerRunReturns i err task)
  then show ?thesis by (simp add: same_graph_update)
qed (simp_all add: same_graph_refl)

lemma reachable_same_graph:
  assumes "reachable cfg s0 s"
  shows "same_graph (tasks s0) (tasks s)"
  using assms
  by (induction rule: reachable_induct)
     (auto intro: same_graph_refl same_graph_trans fire_same_graph)

lemma same_graph_depends_on:
  assumes "same_graph ts ts'"
  shows "depends_on ts' = depends_on ts"
proof -
  have "depends_on b \<subseteq> depends_on a" if "same_graph a b" for a b
    using same_graphD[OF that] unfolding depends_on_def by fastforce
  then show ?thesis using assms same_graph_sym[OF assms] by blast
qed

lemma fire_trace_grows:
  assumes "fire cfg a s = Some s'"
  shows "\<exists>new. trace s' = new @ trace s"
  using assms by (cases rule: fireE) auto

lemma starts_ok_same_graph:
  assumes "same_graph ts ts'" "starts_ok ts tr"
  shows "starts_ok ts' tr"
  using assms(2)
proof (induction tr)
  case Nil
  then show ?case by simp
next
  case (Cons e tr)
  show ?case
  proof (cases e)
    case (Started b t)
    have "\<forall>a \<in> set (t_Dependencies tb'). \<exists>t' \<le> t. Ended a True t' \<in> set tr"
      if "ts' b = Some tb'" for tb'
    proof -
      from same_graphD[OF assms(1) that] obtain tb where
        "ts b = Some tb" "t_Dependencies tb' = t_Dependencies tb" by blast
      then show ?thesis using Cons.prems Started by auto
    qed
    then show ?thesis using Cons Started by simp
  qed (use Cons in auto)
qed

lemma starts_ok_prepend:
  assumes "\<forall>e \<in> set new. \<forall>b t. e \<noteq> Started b t"
  shows "starts_ok ts (new @ tr) = starts_ok ts tr"
  using assms by (induction new) (auto split: event.splits)

lemma starts_okD:
  assumes "starts_ok ts tr" "tr = newer @ Started b t # older" "ts b = Some tb"
    "a \<in> set (t_Dependencies tb)"
  shows "\<exists>t' \<le> t. Ended a True t' \<in> set older"
  using assms(1,2)
proof (induction newer arbitrary: tr)
  case Nil
  then show ?case using assms(3,4) by auto
next
  case (Cons e newer)
  then show ?case by auto
qed

section \<open>Tasks start after their dependencies have completed\<close>

lemma completed_once_mono:
  assumes "set (trace s) \<subseteq> set (trace s')" "completed_once s k"
  shows "completed_once s' k"
  using assms unfolding completed_once_def by blast

lemma deps_done_mono:
  assumes "set (trace s) \<subseteq> set (trace s')" "deps_done s t" "t_Dependencies t' = t_Dependencies t"
  shows "deps_done s' t'"
  using assms completed_once_mono[OF assms(1)] unfolding deps_done_def by auto

lemma fire_trace_subset:
  assumes "fire cfg a s = Some s'"
  shows "set (trace s) \<subseteq> set (trace s')"
  using fire_trace_grows[OF assms] by auto

lemma static_deps: "static_part t' = static_part t \<Longrightarrow> t_Dependencies t' = t_Dependencies t"
  by (simp add: static_part_def)

text \<open>How a step changes a task: not at all, or only its mutable fields.\<close>

lemma fire_task:
  assumes "fire cfg a s = Some s'" "tasks s' k = Some t'"
  shows "\<exists>t. tasks s k = Some t \<and> t_Dependencies t' = t_Dependencies t"
  using same_graphD[OF fire_same_graph[OF assms(1)] assms(2)] by blast

lemma fire_task_fwd:
  assumes "fire cfg a s = Some s'" "tasks s k = Some t"
  shows "\<exists>t'. tasks s' k = Some t' \<and> t_Dependencies t' = t_Dependencies t"
  using same_graphD[OF same_graph_sym[OF fire_same_graph[OF assms(1)]] assms(2)] by metis

lemma order_inv_times:
  assumes "order_inv s" "fire cfg a s = Some s'"
  shows "\<forall>e \<in> set (trace s'). event_time e \<le> now s'"
proof -
  have t: "\<forall>e \<in> set (trace s). event_time e \<le> now s" using assms(1) by (simp add: order_inv_def)
  from assms(2) show ?thesis
  proof (cases rule: fireE)
    case (Tick d)
    then show ?thesis using t by fastforce
  next
    case (SchedSleep d)
    then show ?thesis using t by fastforce
  qed (use t in auto)
qed

lemma order_inv_completed:
  assumes "order_inv s" "fire cfg a s = Some s'" "tasks s' k = Some t'" "t_Status t' = TaskCompleted"
  shows "completed_once s' k"
proof -
  have c: "\<And>k t. tasks s k = Some t \<Longrightarrow> t_Status t = TaskCompleted \<Longrightarrow> completed_once s k"
    using assms(1) by (simp add: order_inv_def)
  note m = completed_once_mono[OF fire_trace_subset[OF assms(2)]]
  from assms(2) show ?thesis
  proof (cases rule: fireE)
    case (SchedCheck n order finished ts' announced)
    from allTCB_effect[OF SchedCheck(4), THEN conjunct1, rule_format, of k] assms(3,4) SchedCheck(5)
    have "tasks s k = Some t'" by (auto simp: markDependencyFailed_def)
    then show ?thesis using c m assms(4) by blast
  next
    case (SchedGetReady order ts' ready)
    from getReadyTasks_effect[OF SchedGetReady(4), THEN conjunct1, rule_format, of k]
      assms(3,4) SchedGetReady(5)
    have "tasks s k = Some t'" by auto
    then show ?thesis using c m assms(4) by blast
  next
    case (WorkerStart i task)
    then have "tasks s k = Some t'" using assms(3,4) by (auto simp: markRunning_def split: if_splits)
    then show ?thesis using c m assms(4) by blast
  next
    case (WorkerRunReturns i err task)
    show ?thesis
    proof (cases "k = w_task (workers s ! i)")
      case True
      then have "err = None" using WorkerRunReturns assms(3,4)
        by (auto simp: recordOutcome_def split: if_splits)
      then show ?thesis using True WorkerRunReturns(5) by (auto simp: completed_once_def)
    next
      case False
      then have "tasks s k = Some t'" using WorkerRunReturns assms(3) by auto
      then show ?thesis using c m assms(4) by blast
    qed
  qed (use assms(3,4) c m in \<open>auto simp: completed_once_def\<close>)
qed

lemma order_inv_ready:
  assumes "order_inv s" "fire cfg a s = Some s'" "tasks s' k = Some t'" "t_Status t' = TaskReady"
  shows "deps_done s' t'"
proof -
  have c: "\<And>k t. tasks s k = Some t \<Longrightarrow> t_Status t = TaskCompleted \<Longrightarrow> completed_once s k"
    and r: "\<And>k t. tasks s k = Some t \<Longrightarrow> t_Status t = TaskReady \<Longrightarrow> deps_done s t"
    using assms(1) by (simp_all add: order_inv_def)
  note sub = fire_trace_subset[OF assms(2)]
  have keep: "deps_done s' t'" if "tasks s k = Some t'"
    using deps_done_mono[OF sub r[OF that assms(4)]] by simp
  from assms(2) show ?thesis
  proof (cases rule: fireE)
    case (SchedCheck n order finished ts' announced)
    from allTCB_effect[OF SchedCheck(4), THEN conjunct1, rule_format, of k] assms(3,4) SchedCheck(5)
    have "tasks s k = Some t'" by (auto simp: markDependencyFailed_def)
    then show ?thesis by (rule keep)
  next
    case (SchedGetReady order ts' ready)
    from getReadyTasks_effect[OF SchedGetReady(4), THEN conjunct1, rule_format, of k]
      assms(3) SchedGetReady(5)
    consider "tasks s k = Some t'"
      | t where "tasks s k = Some t" "deps_completed (tasks s) t" "t' = t\<lparr>t_Status := TaskReady\<rparr>"
      by auto
    then show ?thesis
    proof cases
      case 1
      then show ?thesis by (rule keep)
    next
      case 2
      have "deps_done s t" unfolding deps_done_def
      proof
        fix d assume "d \<in> set (t_Dependencies t)"
        with 2(2) obtain dt where "tasks s d = Some dt" "t_Status dt = TaskCompleted"
          unfolding deps_completed_def by blast
        then show "completed_once s d" by (rule c)
      qed
      then show ?thesis using deps_done_mono[OF sub, of t t'] 2(3) by simp
    qed
  next
    case (WorkerStart i task)
    then have "tasks s k = Some t'" using assms(3,4) by (auto simp: markRunning_def split: if_splits)
    then show ?thesis by (rule keep)
  next
    case (WorkerRunReturns i err task)
    then have "tasks s k = Some t'" using assms(3,4)
      by (auto simp: recordOutcome_def split: if_splits)
    then show ?thesis by (rule keep)
  qed (use assms(3) keep in auto)
qed

lemma order_inv_key_done:
  assumes "fire cfg a s = Some s'" "tasks s k = Some t" "deps_done s t"
  shows "\<exists>t'. tasks s' k = Some t' \<and> deps_done s' t'"
proof -
  from fire_task_fwd[OF assms(1,2)] obtain t' where
    t': "tasks s' k = Some t'" "t_Dependencies t' = t_Dependencies t" by blast
  from deps_done_mono[OF fire_trace_subset[OF assms(1)] assms(3) t'(2)] t'(1)
  show ?thesis by blast
qed

lemma order_inv_dispatch_list:
  assumes "order_inv s" "fire cfg a s = Some s'" "scheduler s' = AtDispatch ready" "k \<in> set ready"
  shows "\<exists>t. tasks s' k = Some t \<and> deps_done s' t"
proof -
  have c: "\<And>k t. tasks s k = Some t \<Longrightarrow> t_Status t = TaskCompleted \<Longrightarrow> completed_once s k"
    and r: "\<And>k t. tasks s k = Some t \<Longrightarrow> t_Status t = TaskReady \<Longrightarrow> deps_done s t"
    and d: "\<And>ready k. scheduler s = AtDispatch ready \<Longrightarrow> k \<in> set ready \<Longrightarrow>
              \<exists>t. tasks s k = Some t \<and> deps_done s t"
    using assms(1) by (simp_all add: order_inv_def)
  have old: ?thesis if "scheduler s = AtDispatch ready'" "k \<in> set ready'" for ready'
    using d[OF that] order_inv_key_done[OF assms(2)] by blast
  from assms(2) show ?thesis
  proof (cases rule: fireE)
    case (SchedGetReady order ts' ready0)
    then have "k \<in> set ready0" using assms(3,4) by simp
    from getReadyTasks_effect[OF SchedGetReady(4), THEN conjunct2, rule_format, OF this]
    obtain t where t: "tasks s k = Some t"
      "t_Status t = TaskReady \<or> (t_Status t = TaskPending \<and> deps_completed (tasks s) t)"
      by blast
    have "deps_done s t"
    proof (cases "t_Status t = TaskReady")
      case True
      then show ?thesis using r t(1) by blast
    next
      case False
      then have dc: "deps_completed (tasks s) t" using t(2) by blast
      show ?thesis unfolding deps_done_def
      proof
        fix x assume "x \<in> set (t_Dependencies t)"
        with dc obtain dt where "tasks s x = Some dt" "t_Status dt = TaskCompleted"
          unfolding deps_completed_def by blast
        then show "completed_once s x" by (rule c)
      qed
    qed
    then show ?thesis using order_inv_key_done[OF assms(2) t(1)] by blast
  next
    case (SchedDispatch k0 rest task slots')
    then show ?thesis using old[of "k0 # rest"] assms(3,4) by auto
  next
    case (SchedSkip k0 rest task)
    then show ?thesis using old[of "k0 # rest"] assms(3,4) by auto
  qed (use assms(3,4) old in \<open>auto split: if_splits\<close>)
qed

lemma order_inv_workers:
  assumes "order_inv s" "fire cfg a s = Some s'" "w \<in> set (workers s')"
  shows "\<exists>t. tasks s' (w_task w) = Some t \<and> deps_done s' t"
proof -
  have wk: "\<And>w. w \<in> set (workers s) \<Longrightarrow> \<exists>t. tasks s (w_task w) = Some t \<and> deps_done s t"
    and d: "\<And>ready k. scheduler s = AtDispatch ready \<Longrightarrow> k \<in> set ready \<Longrightarrow>
              \<exists>t. tasks s k = Some t \<and> deps_done s t"
    using assms(1) by (simp_all add: order_inv_def)
  have old: ?thesis if "w0 \<in> set (workers s)" "w_task w = w_task w0" for w0
    using wk[OF that(1)] order_inv_key_done[OF assms(2)] that(2) by metis
  have upd: ?thesis
    if "workers s' = (workers s)[i := w']" "i < length (workers s)"
      "w_task w' = w_task (workers s ! i)" for i w'
  proof -
    from assms(3) that(1) have "w = w' \<or> w \<in> set (workers s)"
      using set_update_subset_insert[of "workers s" i w'] by auto
    then show ?thesis using old[of "workers s ! i"] old[of w] that(2,3) by auto
  qed
  from assms(2) show ?thesis
  proof (cases rule: fireE)
    case (SchedDispatch k rest task slots')
    show ?thesis
    proof (cases "w \<in> set (workers s)")
      case True
      then show ?thesis using old by blast
    next
      case False
      then have "w_task w = k" using assms(3) SchedDispatch(5) by auto
      moreover from d[OF SchedDispatch(2), of k] obtain t where
        "tasks s k = Some t" "deps_done s t" by auto
      ultimately show ?thesis using order_inv_key_done[OF assms(2)] by metis
    qed
  next
    case (WorkerStart i task)
    then show ?thesis using upd[of i "(workers s ! i)\<lparr>w_phase := InCommand\<rparr>"] by simp
  next
    case (WorkerRunReturns i err task)
    then show ?thesis using upd[of i "(workers s ! i)\<lparr>w_phase := Recorded\<rparr>"] by simp
  next
    case (WorkerNotify i)
    then show ?thesis using upd[of i "(workers s ! i)\<lparr>w_phase := Notified\<rparr>"] by simp
  next
    case (WorkerRelease i)
    then have "w \<in> set (workers s)" using assms(3)
      by (auto dest: in_set_takeD in_set_dropD)
    then show ?thesis using old by blast
  qed (use assms(3) old in auto)
qed

lemma order_inv_starts:
  assumes "order_inv s" "fire cfg a s = Some s'"
  shows "starts_ok (tasks s') (trace s')"
proof -
  have so: "starts_ok (tasks s) (trace s)"
    and t: "\<forall>e \<in> set (trace s). event_time e \<le> now s"
    and wk: "\<And>w. w \<in> set (workers s) \<Longrightarrow> \<exists>t. tasks s (w_task w) = Some t \<and> deps_done s t"
    using assms(1) by (simp_all add: order_inv_def)
  have so': "starts_ok (tasks s') (trace s)"
    using starts_ok_same_graph[OF fire_same_graph[OF assms(2)] so] .
  from assms(2) show ?thesis
  proof (cases rule: fireE)
    case (SchedCheck n order finished ts' announced)
    have "starts_ok (tasks s') (rev (map Announced announced) @ trace s)"
      using so' by (subst starts_ok_prepend) auto
    then show ?thesis using SchedCheck(5) by simp
  next
    case (WorkerStart i task)
    let ?k = "w_task (workers s ! i)"
    have "workers s ! i \<in> set (workers s)" using WorkerStart(2) by simp
    from wk[OF this] WorkerStart(4) have dd: "deps_done s task" by simp
    have "\<exists>t' \<le> now s. Ended x True t' \<in> set (trace s)" if "x \<in> set (t_Dependencies task)" for x
    proof -
      from dd that obtain t' where e: "Ended x True t' \<in> set (trace s)"
        unfolding deps_done_def completed_once_def by blast
      with t have "t' \<le> now s" by fastforce
      with e show ?thesis by blast
    qed
    then have "\<forall>tb. tasks s' ?k = Some tb \<longrightarrow>
        (\<forall>x \<in> set (t_Dependencies tb). \<exists>t' \<le> now s. Ended x True t' \<in> set (trace s))"
      using WorkerStart(5) by (simp add: markRunning_def)
    then show ?thesis using so' WorkerStart(5) by simp
  qed (use so' in auto)
qed

lemma order_inv_step:
  assumes "order_inv s" "fire cfg a s = Some s'"
  shows "order_inv s'"
  unfolding order_inv_def
  using order_inv_times[OF assms] order_inv_completed[OF assms] order_inv_ready[OF assms]
    order_inv_dispatch_list[OF assms] order_inv_workers[OF assms] order_inv_starts[OF assms]
  by blast

lemma order_inv_init:
  assumes "admitted ts"
  shows "order_inv (init_state ts)"
  using assms by (auto simp: order_inv_def init_state_def admitted_def)

lemma order_inv_reachable:
  assumes "admitted ts" "reachable cfg (init_state ts) s"
  shows "order_inv s"
  using assms(2)
  by (induction rule: reachable_induct) (auto intro: order_inv_init[OF assms(1)] order_inv_step)

section \<open>Tasks that are dispatched once\<close>

lemma filter_len_update:
  "i < length xs \<Longrightarrow>
     length (filter P (xs[i := y])) + (if P (xs ! i) then 1 else 0)
       = length (filter P xs) + (if P y then 1 else 0)"
proof (induction xs arbitrary: i)
  case Nil
  then show ?case by simp
next
  case (Cons x xs)
  show ?case
  proof (cases i)
    case 0
    then show ?thesis by simp
  next
    case (Suc j)
    then show ?thesis using Cons.IH[of j] Cons.prems by simp
  qed
qed

lemma filter_len_remove:
  assumes "i < length xs"
  shows "length (filter P (take i xs @ drop (Suc i) xs)) + (if P (xs ! i) then 1 else 0)
           = length (filter P xs)"
proof -
  have "xs = take i xs @ xs ! i # drop (Suc i) xs" using assms by (rule id_take_nth_drop)
  then have "length (filter P xs) = length (filter P (take i xs @ xs ! i # drop (Suc i) xs))"
    by simp
  then show ?thesis by simp
qed

lemma announced_counts:
  "filter (is_end k) (map Announced xs) = []"
  "count_list (map Announced xs) (Dispatched k) = 0"
  by (induction xs) simp_all

lemma ends_pos:
  assumes "Ended k ok t \<in> set (trace s)"
  shows "0 < ends s k"
proof -
  have "Ended k ok t \<in> set (filter (is_end k) (trace s))" using assms by simp
  then show ?thesis unfolding ends_def by (rule length_pos_if_in_set)
qed

lemma active_pos:
  assumes "i < length (workers s)" "in_flight k (workers s ! i)"
  shows "0 < active s k"
proof -
  have "workers s ! i \<in> set (filter (in_flight k) (workers s))" using assms by simp
  then show ?thesis unfolding active_def by (rule length_pos_if_in_set)
qed

lemma counts_step:
  assumes "ends s k + active s k \<le> dispatches s k" "fire cfg a s = Some s'"
  shows "ends s' k + active s' k \<le> dispatches s' k"
  using assms(2)
proof (cases rule: fireE)
  case (SchedCheck n order finished ts' announced)
  then show ?thesis using assms(1)
    by (simp add: ends_def active_def dispatches_def announced_counts)
next
  case (SchedDispatch k0 rest task slots')
  then show ?thesis using assms(1)
    by (simp add: ends_def active_def dispatches_def in_flight_def)
next
  case (WorkerStart i task)
  let ?w = "workers s ! i"
  have "in_flight k (?w\<lparr>w_phase := InCommand\<rparr>) = in_flight k ?w"
    using WorkerStart(3) by (simp add: in_flight_def)
  with filter_len_update[OF WorkerStart(2), of "in_flight k" "?w\<lparr>w_phase := InCommand\<rparr>"]
  have "active s' k = active s k" using WorkerStart(5) by (simp add: active_def)
  then show ?thesis using assms(1) WorkerStart(5) by (simp add: ends_def dispatches_def)
next
  case (WorkerRunReturns i err task)
  let ?w = "workers s ! i"
  have a: "\<not> in_flight k (?w\<lparr>w_phase := Recorded\<rparr>)" by (simp add: in_flight_def)
  have b: "in_flight k ?w = (w_task ?w = k)"
    using WorkerRunReturns(3) by (simp add: in_flight_def)
  from filter_len_update[OF WorkerRunReturns(2), of "in_flight k" "?w\<lparr>w_phase := Recorded\<rparr>"] a b
  have "active s' k + (if w_task ?w = k then 1 else 0) = active s k"
    using WorkerRunReturns(5) by (simp add: active_def)
  moreover have "ends s' k = ends s k + (if w_task ?w = k then 1 else 0)"
    using WorkerRunReturns(5) by (simp add: ends_def)
  moreover have "dispatches s' k = dispatches s k"
    using WorkerRunReturns(5) by (simp add: dispatches_def)
  ultimately show ?thesis using assms(1) by simp
next
  case (WorkerNotify i)
  let ?w = "workers s ! i"
  have "in_flight k (?w\<lparr>w_phase := Notified\<rparr>) = in_flight k ?w"
    using WorkerNotify(3) by (simp add: in_flight_def)
  with filter_len_update[OF WorkerNotify(2), of "in_flight k" "?w\<lparr>w_phase := Notified\<rparr>"]
  have "active s' k = active s k" using WorkerNotify(5) by (simp add: active_def)
  then show ?thesis using assms(1) WorkerNotify(5) by (simp add: ends_def dispatches_def)
next
  case (WorkerRelease i)
  have "\<not> in_flight k (workers s ! i)" using WorkerRelease(3) by (simp add: in_flight_def)
  with filter_len_remove[OF WorkerRelease(2), of "in_flight k"]
  have "active s' k = active s k" using WorkerRelease(4) by (simp add: active_def)
  then show ?thesis using assms(1) WorkerRelease(4) by (simp add: ends_def dispatches_def)
qed (use assms(1) in \<open>simp_all add: ends_def active_def dispatches_def\<close>)

lemma completed_step:
  assumes "once_inv s" "fire cfg a s = Some s'" "dispatches s' k \<le> 1" "completed_once s' k"
  shows "\<exists>t. tasks s' k = Some t \<and> t_Status t = TaskCompleted"
proof -
  have c: "ends s k + active s k \<le> dispatches s k"
    using assms(1) by (simp add: once_inv_def)
  have ih: "dispatches s k \<le> 1 \<Longrightarrow> completed_once s k \<Longrightarrow>
      \<exists>t. tasks s k = Some t \<and> t_Status t = TaskCompleted"
    using assms(1) by (simp add: once_inv_def)
  have e: "completed_once s k \<Longrightarrow> 0 < ends s k"
    unfolding completed_once_def using ends_pos by blast
  from assms(2) show ?thesis
  proof (cases rule: fireE)
    case (SchedCheck n order finished ts' announced)
    then have "dispatches s k \<le> 1" "completed_once s k" using assms(3,4)
      by (auto simp: dispatches_def completed_once_def announced_counts)
    from ih[OF this] obtain t where t: "tasks s k = Some t" "t_Status t = TaskCompleted" by blast
    from allTCB_effect[OF SchedCheck(4), THEN conjunct1, rule_format, of k] t
    have "ts' k = Some t" by auto
    then show ?thesis using t SchedCheck(5) by simp
  next
    case (SchedGetReady order ts' ready)
    then have "dispatches s k \<le> 1" "completed_once s k" using assms(3,4)
      by (auto simp: dispatches_def completed_once_def)
    from ih[OF this] obtain t where t: "tasks s k = Some t" "t_Status t = TaskCompleted" by blast
    from getReadyTasks_effect[OF SchedGetReady(4), THEN conjunct1, rule_format, of k] t
    have "ts' k = Some t" by auto
    then show ?thesis using t SchedGetReady(5) by simp
  next
    case (SchedDispatch k0 rest task slots')
    have co: "completed_once s k" using assms(4) SchedDispatch(5) by (auto simp: completed_once_def)
    have "k0 \<noteq> k"
    proof
      assume "k0 = k"
      then have "dispatches s k = 0" using assms(3) SchedDispatch(5) by (simp add: dispatches_def)
      then show False using e[OF co] c by simp
    qed
    then have "dispatches s k \<le> 1" using assms(3) SchedDispatch(5) by (simp add: dispatches_def)
    from ih[OF this co] show ?thesis using SchedDispatch(5) by simp
  next
    case (WorkerStart i task)
    have co: "completed_once s k" using assms(4) WorkerStart(5) by (auto simp: completed_once_def)
    have d: "dispatches s k \<le> 1" using assms(3) WorkerStart(5) by (simp add: dispatches_def)
    have "w_task (workers s ! i) \<noteq> k"
    proof
      assume "w_task (workers s ! i) = k"
      then have "in_flight k (workers s ! i)" using WorkerStart(3) by (simp add: in_flight_def)
      from active_pos[OF WorkerStart(2) this] e[OF co] c d show False by simp
    qed
    then show ?thesis using ih[OF d co] WorkerStart(5) by simp
  next
    case (WorkerRunReturns i err task)
    have d: "dispatches s k \<le> 1" using assms(3) WorkerRunReturns(5) by (simp add: dispatches_def)
    show ?thesis
    proof (cases "w_task (workers s ! i) = k")
      case True
      then have "in_flight k (workers s ! i)" using WorkerRunReturns(3) by (simp add: in_flight_def)
      from active_pos[OF WorkerRunReturns(2) this] c d have "ends s k = 0" by simp
      then have "\<not> completed_once s k" using e by auto
      then have "err = None" using assms(4) WorkerRunReturns(5) True
        by (auto simp: completed_once_def)
      then show ?thesis using True WorkerRunReturns(5) by (simp add: recordOutcome_def)
    next
      case False
      then have co: "completed_once s k" using assms(4) WorkerRunReturns(5)
        by (auto simp: completed_once_def)
      from ih[OF d co] False show ?thesis using WorkerRunReturns(5) by simp
    qed
  qed (use assms(3,4) ih in \<open>auto simp: dispatches_def completed_once_def\<close>)
qed

lemma once_inv_reachable:
  assumes "reachable cfg (init_state ts0) s"
  shows "once_inv s"
  using assms
proof (induction rule: reachable_induct)
  case init
  then show ?case
    by (simp add: once_inv_def init_state_def ends_def active_def dispatches_def completed_once_def)
next
  case (step s a s')
  have f: "fire cfg a s = Some s'" by fact
  have oi: "once_inv s" by fact
  show ?case unfolding once_inv_def
  proof (intro conjI allI impI)
    fix k
    from oi have "ends s k + active s k \<le> dispatches s k" by (simp add: once_inv_def)
    from counts_step[OF this f] show "ends s' k + active s' k \<le> dispatches s' k" .
  next
    fix k assume "dispatches s' k \<le> 1 \<and> completed_once s' k"
    then show "\<exists>t. tasks s' k = Some t \<and> t_Status t = TaskCompleted"
      using completed_step[OF oi f] by blast
  qed
qed

lemma failed_after_one_dispatch:
  assumes "reachable cfg (init_state ts0) s" "dispatches s F \<le> 1"
    "tasks s F = Some tf" "t_Status tf = TaskFailed"
  shows "\<not> completed_once s F"
  using once_inv_reachable[OF assms(1)] assms(2-4) by (auto simp: once_inv_def)

section \<open>Tasks behind a failed dependency\<close>

lemma was_dispatched_mono:
  assumes "set (trace s) \<subseteq> set (trace s')" "was_dispatched s k"
  shows "was_dispatched s' k"
  using assms unfolding was_dispatched_def by blast

lemma syntheticResult_static: "static_part t' = static_part t \<Longrightarrow> syntheticResult t' = syntheticResult t"
  by (simp add: syntheticResult_def static_part_def)

lemma blocked_invD:
  assumes "blocked_inv s"
  shows "(\<exists>t. Started k t \<in> set (trace s)) \<or> (\<exists>ok t. Ended k ok t \<in> set (trace s))
            \<Longrightarrow> was_dispatched s k"
    and "was_dispatched s k \<Longrightarrow> \<exists>t. tasks s k = Some t \<and> deps_done s t"
    and "w \<in> set (workers s) \<Longrightarrow> was_dispatched s (w_task w)"
    and "tasks s k = Some t \<Longrightarrow> \<not> was_dispatched s k \<Longrightarrow> waiting_or_blocked s k t"
    and "scheduler s = Exited \<Longrightarrow> tasks s k = Some t \<Longrightarrow> \<not> was_dispatched s k
             \<Longrightarrow> t_Status t = TaskFailed"
    and "Announced k \<in> set (trace s) \<Longrightarrow> k \<in> set (senders s) \<or> Enqueued k \<in> set (trace s)"
  using assms unfolding blocked_inv_def by blast+

lemma order_invD:
  assumes "order_inv s"
  shows "e \<in> set (trace s) \<Longrightarrow> event_time e \<le> now s"
    and "tasks s k = Some t \<Longrightarrow> t_Status t = TaskCompleted \<Longrightarrow> completed_once s k"
    and "tasks s k = Some t \<Longrightarrow> t_Status t = TaskReady \<Longrightarrow> deps_done s t"
    and "scheduler s = AtDispatch ready \<Longrightarrow> k \<in> set ready \<Longrightarrow>
              \<exists>t. tasks s k = Some t \<and> deps_done s t"
    and "w \<in> set (workers s) \<Longrightarrow> \<exists>t. tasks s (w_task w) = Some t \<and> deps_done s t"
    and "starts_ok (tasks s) (trace s)"
  using assms unfolding order_inv_def by blast+

lemma blocked_inv_events:
  assumes "blocked_inv s" "fire cfg a s = Some s'"
    "(\<exists>t. Started k t \<in> set (trace s')) \<or> (\<exists>ok t. Ended k ok t \<in> set (trace s'))"
  shows "was_dispatched s' k"
proof -
  note ev = blocked_invD(1)[OF assms(1)] and wk = blocked_invD(3)[OF assms(1)]
  note m = was_dispatched_mono[OF fire_trace_subset[OF assms(2)]]
  have old1: "was_dispatched s' k" if "Started k t \<in> set (trace s)" for t
    using ev[of k] that m by blast
  have old2: "was_dispatched s' k" if "Ended k ok t \<in> set (trace s)" for ok t
    using ev[of k] that m by blast
  from assms(2) show ?thesis
  proof (cases rule: fireE)
    case (WorkerStart i task)
    have "was_dispatched s (w_task (workers s ! i))" using wk WorkerStart(2) by simp
    then show ?thesis using assms(3) WorkerStart(5) old1 old2 m by auto
  next
    case (WorkerRunReturns i err task)
    have "was_dispatched s (w_task (workers s ! i))" using wk WorkerRunReturns(2) by simp
    then show ?thesis using assms(3) WorkerRunReturns(5) old1 old2 m by auto
  qed (use assms(3) old1 old2 in auto)
qed

lemma blocked_inv_dispatched:
  assumes "blocked_inv s" "order_inv s" "fire cfg a s = Some s'" "was_dispatched s' k"
  shows "\<exists>t. tasks s' k = Some t \<and> deps_done s' t"
proof -
  note di = blocked_invD(2)[OF assms(1)] and d = order_invD(4)[OF assms(2)]
  have old: ?thesis if "was_dispatched s k"
    using di[OF that] order_inv_key_done[OF assms(3)] by blast
  from assms(3) show ?thesis
  proof (cases rule: fireE)
    case (SchedDispatch k0 rest task slots')
    show ?thesis
    proof (cases "k = k0")
      case True
      from d[OF SchedDispatch(2), of k0] obtain t where "tasks s k0 = Some t" "deps_done s t"
        by auto
      then show ?thesis using order_inv_key_done[OF assms(3)] True by blast
    next
      case False
      then have "was_dispatched s k" using assms(4) SchedDispatch(5)
        by (auto simp: was_dispatched_def)
      then show ?thesis by (rule old)
    qed
  qed (use assms(4) old in \<open>auto simp: was_dispatched_def\<close>)
qed

lemma blocked_inv_workers:
  assumes "blocked_inv s" "fire cfg a s = Some s'" "w \<in> set (workers s')"
  shows "was_dispatched s' (w_task w)"
proof -
  note wk = blocked_invD(3)[OF assms(1)]
  note m = was_dispatched_mono[OF fire_trace_subset[OF assms(2)]]
  have old: ?thesis if "w0 \<in> set (workers s)" "w_task w = w_task w0" for w0
    using wk[OF that(1)] m that(2) by simp
  have upd: ?thesis
    if "workers s' = (workers s)[i := w']" "i < length (workers s)"
      "w_task w' = w_task (workers s ! i)" for i w'
  proof -
    from assms(3) that(1) have "w = w' \<or> w \<in> set (workers s)"
      using set_update_subset_insert[of "workers s" i w'] by auto
    then show ?thesis using old[of "workers s ! i"] old[of w] that(2,3) by auto
  qed
  from assms(2) show ?thesis
  proof (cases rule: fireE)
    case (SchedDispatch k rest task slots')
    show ?thesis
    proof (cases "w \<in> set (workers s)")
      case True
      then show ?thesis using old by blast
    next
      case False
      then have "w_task w = k" using assms(3) SchedDispatch(5) by auto
      then show ?thesis using SchedDispatch(5) by (simp add: was_dispatched_def)
    qed
  next
    case (WorkerStart i task)
    then show ?thesis using upd[of i "(workers s ! i)\<lparr>w_phase := InCommand\<rparr>"] by simp
  next
    case (WorkerRunReturns i err task)
    then show ?thesis using upd[of i "(workers s ! i)\<lparr>w_phase := Recorded\<rparr>"] by simp
  next
    case (WorkerNotify i)
    then show ?thesis using upd[of i "(workers s ! i)\<lparr>w_phase := Notified\<rparr>"] by simp
  next
    case (WorkerRelease i)
    then have "w \<in> set (workers s)" using assms(3)
      by (auto dest: in_set_takeD in_set_dropD)
    then show ?thesis using old by blast
  qed (use assms(3) old in auto)
qed


lemma waiting_or_blocked_mono:
  assumes "set (trace s) \<subseteq> set (trace s')" "waiting_or_blocked s k t"
  shows "waiting_or_blocked s' k t"
  using assms unfolding waiting_or_blocked_def by blast

lemma blocked_inv_undispatched:
  assumes "blocked_inv s" "fire cfg a s = Some s'" "tasks s' k = Some t'" "\<not> was_dispatched s' k"
  shows "waiting_or_blocked s' k t'"
proof -
  note un = blocked_invD(4)[OF assms(1)] and wk = blocked_invD(3)[OF assms(1)]
  note sub = fire_trace_subset[OF assms(2)]
  have nd: "\<not> was_dispatched s k" using was_dispatched_mono[OF sub] assms(4) by blast
  have keep: ?thesis if "tasks s k = Some t'"
    using waiting_or_blocked_mono[OF sub un[OF that nd]] .
  from assms(2) show ?thesis
  proof (cases rule: fireE)
    case (SchedCheck n order finished ts' announced)
    from allTCB_effect[OF SchedCheck(4), THEN conjunct1, rule_format, of k] assms(3) SchedCheck(5)
    consider "tasks s k = Some t'"
      | t where "tasks s k = Some t" "t' = markDependencyFailed t" "t_ID t \<in> set announced"
      by auto
    then show ?thesis
    proof cases
      case 1
      then show ?thesis by (rule keep)
    next
      case 2
      from un[OF 2(1) nd] have id: "t_ID t = k" by (simp add: waiting_or_blocked_def)
      then have "Announced k \<in> set (trace s')" using 2(3) SchedCheck(5) by auto
      then show ?thesis using 2(2) id
        by (simp add: waiting_or_blocked_def markDependencyFailed_def syntheticResult_def)
    qed
  next
    case (SchedGetReady order ts' ready)
    from getReadyTasks_effect[OF SchedGetReady(4), THEN conjunct1, rule_format, of k]
      assms(3) SchedGetReady(5)
    consider "tasks s k = Some t'"
      | t where "tasks s k = Some t" "t' = t\<lparr>t_Status := TaskReady\<rparr>"
      by auto
    then show ?thesis
    proof cases
      case 1
      then show ?thesis by (rule keep)
    next
      case 2
      from un[OF 2(1) nd] have "t_ID t = k" by (simp add: waiting_or_blocked_def)
      then show ?thesis using 2(2) by (simp add: waiting_or_blocked_def)
    qed
  next
    case (WorkerStart i task)
    have "was_dispatched s (w_task (workers s ! i))" using wk WorkerStart(2) by simp
    then have "k \<noteq> w_task (workers s ! i)" using nd by blast
    then have "tasks s k = Some t'" using WorkerStart(5) assms(3) by simp
    then show ?thesis by (rule keep)
  next
    case (WorkerRunReturns i err task)
    have "was_dispatched s (w_task (workers s ! i))" using wk WorkerRunReturns(2) by simp
    then have "k \<noteq> w_task (workers s ! i)" using nd by blast
    then have "tasks s k = Some t'" using WorkerRunReturns(5) assms(3) by simp
    then show ?thesis by (rule keep)
  qed (use assms(3) keep in auto)
qed

lemma blocked_inv_exited:
  assumes "blocked_inv s" "fire cfg a s = Some s'" "scheduler s' = Exited"
    "tasks s' k = Some t'" "\<not> was_dispatched s' k"
  shows "t_Status t' = TaskFailed"
proof -
  note ex = blocked_invD(5)[OF assms(1)] and wk = blocked_invD(3)[OF assms(1)]
  note sub = fire_trace_subset[OF assms(2)]
  have nd: "\<not> was_dispatched s k" using was_dispatched_mono[OF sub] assms(5) by blast
  have keep: ?thesis if "scheduler s = Exited" "tasks s k = Some t'"
    using ex[OF that nd] .
  from assms(2) show ?thesis
  proof (cases rule: fireE)
    case (SchedCheck n order finished ts' announced)
    then have fin: finished using assms(3) by (auto split: if_splits)
    have "k \<in> set order" using SchedCheck(3) assms(4) SchedCheck(5)
        same_graphD[OF fire_same_graph[OF assms(2)] assms(4)]
      by (auto simp: iteration_order_def)
    with allTCB_effect[OF SchedCheck(4)] fin assms(4) SchedCheck(5)
    have "t_Status t' = TaskCompleted \<or> t_Status t' = TaskFailed" by auto
    moreover from blocked_inv_undispatched[OF assms(1,2,4,5)]
    have "t_Status t' \<noteq> TaskCompleted" by (auto simp: waiting_or_blocked_def)
    ultimately show ?thesis by blast
  next
    case (WorkerStart i task)
    have "was_dispatched s (w_task (workers s ! i))" using wk WorkerStart(2) by simp
    then have "k \<noteq> w_task (workers s ! i)" using nd by blast
    then show ?thesis using WorkerStart(5) assms(3,4) keep by simp
  next
    case (WorkerRunReturns i err task)
    have "was_dispatched s (w_task (workers s ! i))" using wk WorkerRunReturns(2) by simp
    then have "k \<noteq> w_task (workers s ! i)" using nd by blast
    then show ?thesis using WorkerRunReturns(5) assms(3,4) keep by simp
  qed (use assms(3,4) keep in auto)
qed

lemma in_set_remove_nth:
  assumes "x \<in> set xs"
  shows "x = xs ! i \<or> x \<in> set (take i xs @ drop (Suc i) xs)"
proof -
  from assms obtain j where j: "j < length xs" "xs ! j = x" by (auto simp: in_set_conv_nth)
  show ?thesis
  proof (cases "j = i")
    case True
    then show ?thesis using j by simp
  next
    case False
    then consider "j < i" | "i < j" by linarith
    then have "x \<in> set (take i xs) \<or> x \<in> set (drop (Suc i) xs)"
    proof cases
      case 1
      then have "x \<in> set (take i xs)" using j by (auto simp: in_set_conv_nth intro!: exI[of _ j])
      then show ?thesis by blast
    next
      case 2
      then have "xs ! (Suc i + (j - Suc i)) = x" "j - Suc i < length xs - Suc i"
        using j by auto
      then have "x \<in> set (drop (Suc i) xs)"
        by (auto simp: in_set_conv_nth intro!: exI[of _ "j - Suc i"])
      then show ?thesis by blast
    qed
    then show ?thesis by auto
  qed
qed

lemma blocked_inv_announced:
  assumes "blocked_inv s" "fire cfg a s = Some s'" "Announced k \<in> set (trace s')"
  shows "k \<in> set (senders s') \<or> Enqueued k \<in> set (trace s')"
proof -
  note an = blocked_invD(6)[OF assms(1)]
  from assms(2) show ?thesis
  proof (cases rule: fireE)
    case (SchedCheck n order finished ts' announced)
    then show ?thesis using assms(3) an[of k] by auto
  next
    case (SenderNotify i)
    then have "Announced k \<in> set (trace s)" using assms(3) by auto
    from an[OF this] show ?thesis
    proof
      assume "k \<in> set (senders s)"
      from in_set_remove_nth[OF this, of i] show ?thesis using SenderNotify(4) by auto
    next
      assume "Enqueued k \<in> set (trace s)"
      then show ?thesis using SenderNotify(4) by simp
    qed
  qed (use assms(3) an[of k] in auto)
qed

lemma blocked_inv_step:
  assumes "blocked_inv s" "order_inv s" "fire cfg a s = Some s'"
  shows "blocked_inv s'"
  unfolding blocked_inv_def
  using blocked_inv_events[OF assms(1,3)] blocked_inv_dispatched[OF assms]
    blocked_inv_workers[OF assms(1,3)] blocked_inv_undispatched[OF assms(1,3)]
    blocked_inv_exited[OF assms(1,3)] blocked_inv_announced[OF assms(1,3)]
  by blast

lemma blocked_inv_init:
  assumes "admitted ts"
  shows "blocked_inv (init_state ts)"
  using assms
  by (auto simp: blocked_inv_def init_state_def admitted_def was_dispatched_def
      waiting_or_blocked_def)

lemma invs_reachable:
  assumes "admitted ts" "reachable cfg (init_state ts) s"
  shows "blocked_inv s \<and> order_inv s"
  using assms(2)
  by (induction rule: reachable_induct)
     (auto intro: order_inv_init[OF assms(1)] blocked_inv_init[OF assms(1)]
        order_inv_step blocked_inv_step)

section \<open>The recorded start and end times\<close>

lemma mark_times:
  "t_StartTime (markDependencyFailed t) = t_StartTime t"
  "t_EndTime (markDependencyFailed t) = t_EndTime t"
  "t_StartTime (t\<lparr>t_Status := TaskReady\<rparr>) = t_StartTime t"
  "t_EndTime (t\<lparr>t_Status := TaskReady\<rparr>) = t_EndTime t"
  by (simp_all add: markDependencyFailed_def)

lemma start_field_step:
  assumes "fields_inv s" "fire cfg a s = Some s'" "tasks s' b = Some tb" "Started b t \<in> set (trace s')"
  shows "Started b (t_StartTime tb) \<in> set (trace s')"
proof -
  have ih: "\<And>tb t. tasks s b = Some tb \<Longrightarrow> Started b t \<in> set (trace s) \<Longrightarrow>
      Started b (t_StartTime tb) \<in> set (trace s)"
    using assms(1) unfolding fields_inv_def by blast
  from assms(2) show ?thesis
  proof (cases rule: fireE)
    case (SchedCheck n order finished ts' announced)
    have st: "Started b t \<in> set (trace s)" using assms(4) SchedCheck(5) by auto
    have tb: "ts' b = Some tb" using assms(3) SchedCheck(5) by simp
    from allTCB_effect[OF SchedCheck(4), THEN conjunct1, rule_format, of b] tb
    obtain t0 where "tasks s b = Some t0" "t_StartTime tb = t_StartTime t0"
      by (metis mark_times(1) option.inject)
    with ih[OF _ st] show ?thesis using SchedCheck(5) by auto
  next
    case (SchedGetReady order ts' ready)
    have st: "Started b t \<in> set (trace s)" using assms(4) SchedGetReady(5) by auto
    have tb: "ts' b = Some tb" using assms(3) SchedGetReady(5) by simp
    from getReadyTasks_effect[OF SchedGetReady(4), THEN conjunct1, rule_format, of b] tb
    obtain t0 where "tasks s b = Some t0" "t_StartTime tb = t_StartTime t0"
      by (metis mark_times(3) option.inject)
    with ih[OF _ st] show ?thesis using SchedGetReady(5) by auto
  next
    case (WorkerStart i task)
    show ?thesis
    proof (cases "b = w_task (workers s ! i)")
      case True
      then show ?thesis using WorkerStart(5) assms(3) by (auto simp: markRunning_def)
    next
      case False
      then show ?thesis using WorkerStart(5) assms(3,4) ih by auto
    qed
  next
    case (WorkerRunReturns i err task)
    have st: "Started b t \<in> set (trace s)" using assms(4) WorkerRunReturns(5) by auto
    show ?thesis
    proof (cases "b = w_task (workers s ! i)")
      case True
      then have "t_StartTime tb = t_StartTime task"
        using WorkerRunReturns(5) assms(3) by (auto simp: recordOutcome_def)
      with ih[OF _ st, of task] True WorkerRunReturns(4,5) show ?thesis by auto
    next
      case False
      then show ?thesis using WorkerRunReturns(5) assms(3) ih[OF _ st] by auto
    qed
  qed (use assms(3,4) ih in \<open>auto\<close>)
qed

lemma end_field_step:
  assumes "fields_inv s" "once_inv s" "fire cfg a s = Some s'" "tasks s' k = Some ta"
    "dispatches s' k \<le> 1" "Ended k ok t \<in> set (trace s')"
  shows "t_EndTime ta = t"
proof -
  have ih: "\<And>ta ok t. tasks s k = Some ta \<Longrightarrow> dispatches s k \<le> 1 \<Longrightarrow>
      Ended k ok t \<in> set (trace s) \<Longrightarrow> t_EndTime ta = t"
    using assms(1) unfolding fields_inv_def by blast
  have c: "ends s k + active s k \<le> dispatches s k"
    using assms(2) by (simp add: once_inv_def)
  from assms(3) show ?thesis
  proof (cases rule: fireE)
    case (SchedCheck n order finished ts' announced)
    have st: "Ended k ok t \<in> set (trace s)" "dispatches s k \<le> 1"
      using assms(5,6) SchedCheck(5) by (auto simp: dispatches_def announced_counts)
    have ta: "ts' k = Some ta" using assms(4) SchedCheck(5) by simp
    from allTCB_effect[OF SchedCheck(4), THEN conjunct1, rule_format, of k] ta
    obtain t0 where "tasks s k = Some t0" "t_EndTime ta = t_EndTime t0"
      by (metis mark_times(2) option.inject)
    with ih[OF _ st(2,1)] show ?thesis by auto
  next
    case (SchedGetReady order ts' ready)
    have st: "Ended k ok t \<in> set (trace s)" "dispatches s k \<le> 1"
      using assms(5,6) SchedGetReady(5) by (auto simp: dispatches_def)
    have ta: "ts' k = Some ta" using assms(4) SchedGetReady(5) by simp
    from getReadyTasks_effect[OF SchedGetReady(4), THEN conjunct1, rule_format, of k] ta
    obtain t0 where "tasks s k = Some t0" "t_EndTime ta = t_EndTime t0"
      by (metis mark_times(4) option.inject)
    with ih[OF _ st(2,1)] show ?thesis by auto
  next
    case (SchedDispatch k0 rest task slots')
    have st: "Ended k ok t \<in> set (trace s)" using assms(6) SchedDispatch(5) by auto
    have "k0 \<noteq> k"
    proof
      assume "k0 = k"
      then have "dispatches s k = 0" using assms(5) SchedDispatch(5) by (simp add: dispatches_def)
      then show False using ends_pos[OF st] c by simp
    qed
    then have "dispatches s k \<le> 1" using assms(5) SchedDispatch(5) by (simp add: dispatches_def)
    from ih[OF _ this st] show ?thesis using assms(4) SchedDispatch(5) by simp
  next
    case (WorkerStart i task)
    have st: "Ended k ok t \<in> set (trace s)" "dispatches s k \<le> 1"
      using assms(5,6) WorkerStart(5) by (auto simp: dispatches_def)
    show ?thesis
    proof (cases "k = w_task (workers s ! i)")
      case True
      then have "t_EndTime ta = t_EndTime task"
        using WorkerStart(5) assms(4) by (auto simp: markRunning_def)
      with ih[OF _ st(2,1), of task] True WorkerStart(4) show ?thesis by simp
    next
      case False
      then show ?thesis using WorkerStart(5) assms(4) ih[OF _ st(2,1)] by auto
    qed
  next
    case (WorkerRunReturns i err task)
    have d: "dispatches s k \<le> 1" using assms(5) WorkerRunReturns(5) by (simp add: dispatches_def)
    show ?thesis
    proof (cases "k = w_task (workers s ! i)")
      case True
      then have "in_flight k (workers s ! i)" using WorkerRunReturns(3) by (simp add: in_flight_def)
      from active_pos[OF WorkerRunReturns(2) this] c d have "ends s k = 0" by simp
      then have "\<And>ok t. Ended k ok t \<notin> set (trace s)" using ends_pos by fastforce
      then have "t = now s" using assms(6) WorkerRunReturns(5) by auto
      then show ?thesis using True WorkerRunReturns(5) assms(4) by (auto simp: recordOutcome_def)
    next
      case False
      then have st: "Ended k ok t \<in> set (trace s)" using assms(6) WorkerRunReturns(5) by auto
      from False show ?thesis using WorkerRunReturns(5) assms(4) ih[OF _ d st] by auto
    qed
  qed (use assms(4,5,6) ih in \<open>auto simp: dispatches_def\<close>)
qed

lemma fields_inv_reachable:
  assumes "reachable cfg (init_state ts0) s"
  shows "fields_inv s"
  using assms
proof (induction rule: reachable_induct)
  case init
  then show ?case by (simp add: fields_inv_def init_state_def)
next
  case (step s a s')
  have f: "fire cfg a s = Some s'" by fact
  have fi: "fields_inv s" by fact
  have r: "reachable cfg (init_state ts0) s" by fact
  note oi = once_inv_reachable[OF r]
  show ?case unfolding fields_inv_def
    using start_field_step[OF fi f] end_field_step[OF fi oi f] by blast
qed

lemma recorded_times:
  assumes "admitted ts0" "reachable cfg (init_state ts0) s"
    "tasks s a = Some ta" "tasks s b = Some tb" "a \<in> set (t_Dependencies tb)"
    "Started b t \<in> set (trace s)" "dispatches s a \<le> 1"
  shows "t_EndTime ta \<le> t_StartTime tb"
proof -
  from invs_reachable[OF assms(1,2)] have o: "order_inv s" by blast
  from fields_inv_reachable[OF assms(2)] have fi: "fields_inv s" .
  from fi assms(4,6) have "Started b (t_StartTime tb) \<in> set (trace s)"
    unfolding fields_inv_def by blast
  then obtain newer older where tr: "trace s = newer @ Started b (t_StartTime tb) # older"
    by (meson split_list)
  from starts_okD[OF order_invD(6)[OF o] tr assms(4,5)] obtain t' where
    t': "t' \<le> t_StartTime tb" "Ended a True t' \<in> set older" by blast
  then have "Ended a True t' \<in> set (trace s)" using tr by simp
  with fi assms(3,7) have "t_EndTime ta = t'" unfolding fields_inv_def by blast
  then show ?thesis using t'(1) by simp
qed

section \<open>Properties of an execution\<close>

lemma blocked_edge:
  assumes "blocked_inv s" "(y, z) \<in> depends_on (tasks s)" "\<not> completed_once s z"
  shows "\<not> was_dispatched s y \<and> \<not> completed_once s y"
proof -
  from assms(2) obtain ty where ty: "tasks s y = Some ty" "z \<in> set (t_Dependencies ty)"
    by (auto simp: depends_on_def)
  have nd: "\<not> was_dispatched s y"
  proof
    assume "was_dispatched s y"
    from blocked_invD(2)[OF assms(1) this] ty(1) have "deps_done s ty" by simp
    then show False using ty(2) assms(3) by (simp add: deps_done_def)
  qed
  moreover have "\<not> completed_once s y"
    using blocked_invD(1)[OF assms(1), of y] nd unfolding completed_once_def by blast
  ultimately show ?thesis by blast
qed

lemma blocked_closure:
  assumes "blocked_inv s" "(T, F) \<in> (depends_on (tasks s))\<^sup>+" "\<not> completed_once s F"
  shows "\<not> was_dispatched s T \<and> \<not> completed_once s T"
  using assms(2)
proof (induction rule: converse_trancl_induct)
  case (base y)
  then show ?case using blocked_edge[OF assms(1) _ assms(3)] by blast
next
  case (step y z)
  then show ?case using blocked_edge[OF assms(1) step(1)] by blast
qed

lemma idle_inv_step:
  assumes "idle_inv s" "fire cfg a s = Some s'"
  shows "idle_inv s'"
  using assms(2)
proof (cases rule: fireE)
  case (SchedCheck n order finished ts' announced)
  then have "order = []" using assms(1) by (simp add: idle_inv_def iteration_order_def)
  then show ?thesis using SchedCheck assms(1) by (auto simp: idle_inv_def)
next
  case (SchedGetReady order ts' ready)
  then have "order = []" using assms(1) by (simp add: idle_inv_def iteration_order_def)
  then show ?thesis using SchedGetReady assms(1) by (auto simp: idle_inv_def)
qed (use assms(1) in \<open>auto simp: idle_inv_def\<close>)

lemma iteration_order_eval:
  "iteration_order ts order =
     (distinct order \<and> (\<forall>k \<in> set order. ts k \<noteq> None) \<and> dom ts \<subseteq> set order)"
  by (auto simp: iteration_order_def)

lemmas run_simps = iteration_order_eval init_state_def twoCpus_def cpuTask_def constraintMap_def
  tryAcquireResource_def releaseResource_def dependenciesMet_def markRunning_def recordOutcome_def
  markDependencyFailed_def completeCh_capacity_def dependencyFailed_def Let_def

lemma admitted_example:
  "admitted [''F'' \<mapsto> cpuTask ''F'' [], ''G'' \<mapsto> cpuTask ''G'' [''F''],
             ''T'' \<mapsto> cpuTask ''T'' [''G'']]"
  "admitted [''A'' \<mapsto> cpuTask ''A'' [], ''B'' \<mapsto> cpuTask ''B'' [''A'']]"
  by (auto simp: admitted_def cpuTask_def split: if_splits)

subsection \<open>Dependency order\<close>

text \<open>
  Claim C1 (dependency order).  In every state an execution can reach, whenever the trace
  holds the start of the command of a task \<open>b\<close> at time \<open>t\<close> and \<open>a\<close> is one of the
  dependencies of \<open>b\<close>, the part of the trace before that start holds the successful end of
  \<open>a\<close>, recorded at a time \<open>t' \<le> t\<close>: the command of \<open>b\<close> never starts before \<open>a\<close> went to
  Completed.  In terms of the fields of the tasks: once \<open>B\<close> has started, the \<open>EndTime\<close> of a
  dependency \<open>A\<close> that was dispatched at most once is not after the \<open>StartTime\<close> of \<open>B\<close>.
  For a dependency that was dispatched twice the recorded times can be in the other order,
  as the run after the example shows.
  The start precondition \<open>dependenciesMet\<close> holds only when every dependency is present
  with status Completed, so a Failed dependency never satisfies it, and \<open>getReadyTasks\<close>
  promotes a task to Ready only under that precondition.
\<close>

theorem dependency_order:
  assumes "admitted ts0" "reachable cfg (init_state ts0) s"
  shows "(trace s = newer @ Started b t # older \<and> ts0 b = Some tb \<and> a \<in> set (t_Dependencies tb)
            \<longrightarrow> (\<exists>t' \<le> t. Ended a True t' \<in> set older))
       \<and> (tasks s A = Some tA \<and> tasks s B = Some tB \<and> A \<in> set (t_Dependencies tB)
            \<and> Started B u \<in> set (trace s) \<and> dispatches s A \<le> 1
            \<longrightarrow> t_EndTime tA \<le> t_StartTime tB)
       \<and> (dependenciesMet ts task \<and> d \<in> set (t_Dependencies task)
            \<longrightarrow> (\<exists>dt. ts d = Some dt \<and> t_Status dt = TaskCompleted \<and> t_Status dt \<noteq> TaskFailed))
       \<and> (getReadyTasks order ts = (ts', ready) \<and> k \<in> set ready \<and> ts k = Some task
            \<and> t_Status task \<noteq> TaskReady \<longrightarrow> dependenciesMet ts task)"
proof (intro conjI impI)
  assume h: "trace s = newer @ Started b t # older \<and> ts0 b = Some tb \<and> a \<in> set (t_Dependencies tb)"
  from invs_reachable[OF assms] have o: "order_inv s" by blast
  from reachable_same_graph[OF assms(2)] have sg: "same_graph ts0 (tasks s)"
    by (simp add: init_state_def)
  from same_graphD[OF same_graph_sym[OF sg], of b tb] h obtain tb' where
    tb': "tasks s b = Some tb'" "t_Dependencies tb' = t_Dependencies tb" by metis
  from starts_okD[OF order_invD(6)[OF o] _ tb'(1), of newer t older a] h tb'(2)
  show "\<exists>t' \<le> t. Ended a True t' \<in> set older" by simp
next
  assume "tasks s A = Some tA \<and> tasks s B = Some tB \<and> A \<in> set (t_Dependencies tB)
            \<and> Started B u \<in> set (trace s) \<and> dispatches s A \<le> 1"
  then show "t_EndTime tA \<le> t_StartTime tB" using recorded_times[OF assms] by blast
next
  assume "dependenciesMet ts task \<and> d \<in> set (t_Dependencies task)"
  then show "\<exists>dt. ts d = Some dt \<and> t_Status dt = TaskCompleted \<and> t_Status dt \<noteq> TaskFailed"
    by (auto simp: dependenciesMet_iff deps_completed_def)
next
  assume h: "getReadyTasks order ts = (ts', ready) \<and> k \<in> set ready \<and> ts k = Some task
            \<and> t_Status task \<noteq> TaskReady"
  from getReadyTasks_effect[of order ts ts' ready] h
  show "dependenciesMet ts task" by (auto simp: dependenciesMet_iff)
qed

theorem dependency_order_witness:
  "\<exists>s older ta tb ts' ready. run (twoCpus 2)
          [SchedCheck (Suc 0) [''A'', ''B''], SchedGetReady [''A'', ''B''],
           SchedDispatch, SchedSleep 10, WorkerStart 0, Tick 5, WorkerRunReturns 0 None,
           SchedCheck (Suc (Suc 0)) [''A'', ''B''], SchedGetReady [''A'', ''B''],
           SchedDispatch, Tick 1, WorkerStart 1]
          (init_state [''A'' \<mapsto> cpuTask ''A'' [], ''B'' \<mapsto> cpuTask ''B'' [''A'']]) = Some s
      \<and> trace s = [] @ Started ''B'' 16 # older
      \<and> (\<exists>t' \<le> 16. Ended ''A'' True t' \<in> set older)
      \<and> tasks s ''A'' = Some ta \<and> tasks s ''B'' = Some tb \<and> dispatches s ''A'' \<le> 1
      \<and> t_EndTime ta = 15 \<and> t_StartTime tb = 16 \<and> t_EndTime ta \<le> t_StartTime tb
      \<and> dependenciesMet (tasks s) tb \<and> t_Status ta = TaskCompleted
      \<and> getReadyTasks [''A'', ''B'']
           [''A'' \<mapsto> cpuTask ''A'' [], ''B'' \<mapsto> cpuTask ''B'' [''A'']] = (ts', ready)
      \<and> ''A'' \<in> set ready \<and> t_Status (cpuTask ''A'' []) \<noteq> TaskReady
      \<and> dependenciesMet [''A'' \<mapsto> cpuTask ''A'' [], ''B'' \<mapsto> cpuTask ''B'' [''A'']]
           (cpuTask ''A'' [])"
proof -
  let ?ts = "[''A'' \<mapsto> cpuTask ''A'' [], ''B'' \<mapsto> cpuTask ''B'' [''A'']]"
  let ?acts = "[SchedCheck (Suc 0) [''A'', ''B''], SchedGetReady [''A'', ''B''],
           SchedDispatch, SchedSleep 10, WorkerStart 0, Tick 5, WorkerRunReturns 0 None,
           SchedCheck (Suc (Suc 0)) [''A'', ''B''], SchedGetReady [''A'', ''B''],
           SchedDispatch, Tick 1, WorkerStart 1]"
  have "\<exists>s older ta tb. run (twoCpus 2) ?acts (init_state ?ts) = Some s
      \<and> trace s = [] @ Started ''B'' 16 # older
      \<and> tasks s ''A'' = Some ta \<and> tasks s ''B'' = Some tb \<and> dispatches s ''A'' \<le> 1
      \<and> t_EndTime ta = 15 \<and> t_StartTime tb = 16
      \<and> ''A'' \<in> set (t_Dependencies tb) \<and> dependenciesMet (tasks s) tb"
    by (simp add: run_simps dispatches_def)
  then obtain s older ta tb where r: "run (twoCpus 2) ?acts (init_state ?ts) = Some s"
    and tr: "trace s = [] @ Started ''B'' 16 # older"
    and f: "tasks s ''A'' = Some ta" "tasks s ''B'' = Some tb" "dispatches s ''A'' \<le> 1"
      "t_EndTime ta = 15" "t_StartTime tb = 16"
    and dp: "''A'' \<in> set (t_Dependencies tb)" "dependenciesMet (tasks s) tb" by blast
  have g: "getReadyTasks [''A'', ''B''] ?ts
             = (?ts(''A'' \<mapsto> (cpuTask ''A'' [])\<lparr>t_Status := TaskReady\<rparr>), [''A''])"
    by (simp add: cpuTask_def dependenciesMet_def)
  have b: "?ts ''B'' = Some (cpuTask ''B'' [''A''])" by simp
  have a: "''A'' \<in> set (t_Dependencies (cpuTask ''B'' [''A'']))" by (simp add: cpuTask_def)
  have st: "Started ''B'' 16 \<in> set (trace s)" using tr by simp
  have nr: "t_Status (cpuTask ''A'' []) \<noteq> TaskReady" by (simp add: cpuTask_def)
  note th = dependency_order[OF admitted_example(2) run_reachable[OF r]]
  from th[of "[]" "''B''" 16 older "cpuTask ''B'' [''A'']" "''A''"] tr b a
  have c1: "\<exists>t' \<le> 16. Ended ''A'' True t' \<in> set older" by blast
  from th[THEN conjunct2, THEN conjunct1] f dp(1) st
  have c2: "t_EndTime ta \<le> t_StartTime tb" by blast
  from th[THEN conjunct2, THEN conjunct2, THEN conjunct1] dp f(1)
  have c3: "t_Status ta = TaskCompleted" by (metis option.inject)
  from th[THEN conjunct2, THEN conjunct2, THEN conjunct2] g nr
  have c4: "dependenciesMet ?ts (cpuTask ''A'' [])" by fastforce
  show ?thesis using r tr c1 f c2 dp(2) c3 g nr c4 by fastforce
qed

text \<open>
  A task that is still Ready when the supervisor wakes up is dispatched again.  In the run
  below \<open>A\<close> is dispatched twice; its first run ends at time 20, \<open>B\<close> starts at time 30, and
  the second run of \<open>A\<close> ends at time 35 and overwrites the end time of \<open>A\<close>: both tasks
  are Completed, and the recorded end time of \<open>A\<close> is after the recorded start time of \<open>B\<close>.
\<close>

theorem end_time_overwritten_counterexample:
  "\<exists>s ta tb. run (twoCpus 2)
          [SchedCheck (Suc (Suc 0)) [''A'', ''B''], SchedGetReady [''A'', ''B''], SchedDispatch,
           SchedSleep 10,
           SchedCheck (Suc (Suc 0)) [''A'', ''B''], SchedGetReady [''A'', ''B''], SchedDispatch,
           SchedSleep 10,
           WorkerStart 0, WorkerRunReturns 0 None, WorkerNotify 0, WorkerRelease 0,
           SchedCheck (Suc (Suc 0)) [''A'', ''B''], SchedGetReady [''A'', ''B''], SchedDispatch,
           SchedSleep 10,
           WorkerStart 1, WorkerStart 0, WorkerRunReturns 1 None, Tick 5,
           WorkerRunReturns 0 None,
           SchedCheck (Suc (Suc 0)) [''A'', ''B'']]
          (init_state [''A'' \<mapsto> cpuTask ''A'' [], ''B'' \<mapsto> cpuTask ''B'' [''A'']]) = Some s
      \<and> scheduler s = Exited
      \<and> (''B'', ''A'') \<in> depends_on [''A'' \<mapsto> cpuTask ''A'' [], ''B'' \<mapsto> cpuTask ''B'' [''A'']]
      \<and> tasks s ''A'' = Some ta \<and> t_Status ta = TaskCompleted
      \<and> tasks s ''B'' = Some tb \<and> t_Status tb = TaskCompleted
      \<and> dispatches s ''A'' = 2
      \<and> t_EndTime ta = 35 \<and> t_StartTime tb = 30 \<and> \<not> t_EndTime ta \<le> t_StartTime tb"
  by (simp add: run_simps depends_on_def dispatches_def)

subsection \<open>Resource slots\<close>

text \<open>
  Claim C2 (slot limit).  In every state an execution can reach, for every resource tag with a
  configured constraint, the number of workers that were dispatched on that tag and have not
  yet released their slot is at most the configured maximum (no worker at all when the
  maximum is not positive); on a tag without a configured constraint \<open>tryAcquireResource\<close>
  always succeeds and leaves the slot counters as they are.
\<close>

theorem slot_limit:
  assumes "reachable cfg (init_state ts0) s"
  shows "(\<forall>r c. cfg_constraints cfg r = Some c \<longrightarrow> int (holders s r) \<le> max 0 (rc_MaxSlots c))
       \<and> (\<forall>r slots. cfg_constraints cfg r = None \<longrightarrow>
             tryAcquireResource (cfg_constraints cfg) slots r = (True, slots))"
proof (intro conjI allI impI)
  fix r c assume c: "cfg_constraints cfg r = Some c"
  from slots_inv_reachable[OF assms] have "slots_inv cfg s" .
  from this[unfolded slots_inv_def, rule_format, of r] c
  show "int (holders s r) \<le> max 0 (rc_MaxSlots c)" by simp
next
  fix r slots assume "cfg_constraints cfg r = None"
  then show "tryAcquireResource (cfg_constraints cfg) slots r = (True, slots)"
    by (simp add: tryAcquireResource_def)
qed

theorem slot_limit_witness:
  "\<exists>s. run (twoCpus 3)
          [SchedCheck (Suc 0) [''A'', ''B'', ''C''], SchedGetReady [''A'', ''B'', ''C''],
           SchedDispatch, SchedDispatch, SchedDispatch]
          (init_state [''A'' \<mapsto> cpuTask ''A'' [], ''B'' \<mapsto> cpuTask ''B'' [],
                       ''C'' \<mapsto> cpuTask ''C'' []]) = Some s
      \<and> cfg_constraints (twoCpus 3) ''cpu'' = Some \<lparr>rc_Type = ''cpu'', rc_MaxSlots = 2\<rparr>
      \<and> holders s ''cpu'' = 2
      \<and> int (holders s ''cpu'') \<le> 2"
proof -
  let ?ts = "[''A'' \<mapsto> cpuTask ''A'' [], ''B'' \<mapsto> cpuTask ''B'' [],
                       ''C'' \<mapsto> cpuTask ''C'' []]"
  let ?acts = "[SchedCheck (Suc 0) [''A'', ''B'', ''C''], SchedGetReady [''A'', ''B'', ''C''],
           SchedDispatch, SchedDispatch, SchedDispatch]"
  have "\<exists>s. run (twoCpus 3) ?acts (init_state ?ts) = Some s \<and> holders s ''cpu'' = 2"
    by (simp add: run_simps holders_def)
  then obtain s where r: "run (twoCpus 3) ?acts (init_state ?ts) = Some s"
    and h: "holders s ''cpu'' = 2" by blast
  have c: "cfg_constraints (twoCpus 3) ''cpu'' = Some \<lparr>rc_Type = ''cpu'', rc_MaxSlots = 2\<rparr>"
    by (simp add: twoCpus_def constraintMap_def)
  from slot_limit[OF run_reachable[OF r]] c have "int (holders s ''cpu'') \<le> 2" by fastforce
  then show ?thesis using r c h by blast
qed

subsection \<open>The result of a failed command\<close>

text \<open>
  Claim C3 (result of a failed command).  When \<open>Run\<close> returns an error, \<open>executeTask\<close> sets the
  task to Failed and captures the error in the task and in a result whose success flag is
  false; but the result carries the output path of the command, not the empty path: for a
  command with a non-blank output path, the recorded result has a non-empty output path and
  \<open>EncoderResult.Validate\<close> rejects it with the error of a failed result that has an output
  path.  The failure invariant of results (output path absent) does not hold of the recorded
  result.
\<close>

theorem failed_command_result:
  assumes "err \<noteq> None" "\<not> TrimSpace_empty (t_CommandOutputPath task)"
  shows "t_Status (recordOutcome t err task) = TaskFailed
       \<and> t_Error (recordOutcome t err task) = err
       \<and> (\<exists>r. t_Result (recordOutcome t err task) = Some r
             \<and> \<not> r_Success r \<and> r_Error r = err
             \<and> r_OutputPath r = t_CommandOutputPath task \<and> r_OutputPath r \<noteq> []
             \<and> EncoderResult_Validate r = Some FailedWithOutputPath)"
proof -
  have "t_CommandOutputPath task \<noteq> []" using assms(2) by (auto simp: TrimSpace_empty_def)
  then show ?thesis using assms by (auto simp: recordOutcome_def EncoderResult_Validate_def)
qed

theorem failed_command_result_witness:
  "Some ''mock command failed'' \<noteq> None
   \<and> \<not> TrimSpace_empty (t_CommandOutputPath (cpuTask ''b'' [''a'']))
   \<and> t_Status (recordOutcome 20 (Some ''mock command failed'') (cpuTask ''b'' [''a''])) = TaskFailed
   \<and> (\<exists>r. t_Result (recordOutcome 20 (Some ''mock command failed'') (cpuTask ''b'' [''a''])) = Some r
         \<and> r_OutputPath r = ''/tmp/b.mp4''
         \<and> EncoderResult_Validate r = Some FailedWithOutputPath)"
proof -
  have h1: "Some ''mock command failed'' \<noteq> None" by simp
  have h2: "\<not> TrimSpace_empty (t_CommandOutputPath (cpuTask ''b'' [''a'']))"
    by (simp add: cpuTask_def TrimSpace_empty_def ascii_space_def)
  have p: "t_CommandOutputPath (cpuTask ''b'' [''a'']) = ''/tmp/b.mp4''" by (simp add: cpuTask_def)
  from failed_command_result[OF h1 h2, of 20] p h1 h2 show ?thesis by auto
qed

subsection \<open>Failure propagation\<close>

text \<open>
  Claim C4 (failure propagation).  Let the supervisor loop have exited and let \<open>F\<close> be
  Failed, where \<open>F\<close> was dispatched at most once or no run of its command has succeeded.
  Then every task \<open>T\<close> that depends on \<open>F\<close> through one or more dependency edges is Failed
  with the error \<open>dependency failed\<close>, holds the synthetic failure result, was never
  dispatched and its command never started, and its id was announced for the completion
  channel: a sender for it is pending or has already put it on the channel.  The condition
  on the runs of \<open>F\<close> is needed, as the run after the example shows.
\<close>

theorem failure_propagates:
  assumes "admitted ts0" "reachable cfg (init_state ts0) s" "scheduler s = Exited"
    "(T, F) \<in> (depends_on ts0)\<^sup>+"
    "tasks s F = Some tf" "t_Status tf = TaskFailed"
    "dispatches s F \<le> 1 \<or> \<not> completed_once s F"
  shows "\<exists>tt. tasks s T = Some tt \<and> t_Status tt = TaskFailed
           \<and> t_Error tt = Some dependencyFailed \<and> t_Result tt = Some (syntheticResult tt)
           \<and> \<not> was_dispatched s T \<and> (\<forall>t. Started T t \<notin> set (trace s))
           \<and> Announced T \<in> set (trace s)
           \<and> (T \<in> set (senders s) \<or> Enqueued T \<in> set (trace s))"
proof -
  from invs_reachable[OF assms(1,2)] have b: "blocked_inv s" and o: "order_inv s" by blast+
  have g: "depends_on (tasks s) = depends_on ts0"
    using same_graph_depends_on[OF reachable_same_graph[OF assms(2)]] by (simp add: init_state_def)
  from assms(7) failed_after_one_dispatch[OF assms(2) _ assms(5,6)]
  have nc: "\<not> completed_once s F" by blast
  from blocked_closure[OF b] assms(4) nc g have nd: "\<not> was_dispatched s T" by simp
  from assms(4) g obtain z where "(T, z) \<in> depends_on (tasks s)"
    by (metis tranclD)
  then obtain tt where tt: "tasks s T = Some tt"
    by (auto simp: depends_on_def)
  from blocked_invD(5)[OF b assms(3) tt nd] have f: "t_Status tt = TaskFailed" .
  from blocked_invD(4)[OF b tt nd] f have w: "t_Error tt = Some dependencyFailed"
    "t_Result tt = Some (syntheticResult tt)" "Announced T \<in> set (trace s)"
    by (auto simp: waiting_or_blocked_def)
  from blocked_invD(6)[OF b w(3)] have e: "T \<in> set (senders s) \<or> Enqueued T \<in> set (trace s)" .
  have ns: "\<forall>t. Started T t \<notin> set (trace s)" using blocked_invD(1)[OF b, of T] nd by blast
  show ?thesis using tt f w e nd ns by blast
qed

theorem failure_propagates_witness:
  "\<exists>s. run (twoCpus 3)
          [SchedCheck (Suc 0) [''F'', ''G'', ''T''], SchedGetReady [''F'', ''G'', ''T''],
           SchedDispatch, SchedSleep 10, WorkerStart 0, Tick 5,
           WorkerRunReturns 0 (Some ''exit status 1''),
           SchedCheck (Suc (Suc 0)) [''F'', ''G'', ''T'']]
          (init_state [''F'' \<mapsto> cpuTask ''F'' [], ''G'' \<mapsto> cpuTask ''G'' [''F''],
                       ''T'' \<mapsto> cpuTask ''T'' [''G'']]) = Some s
      \<and> scheduler s = Exited
      \<and> (\<exists>tf. tasks s ''F'' = Some tf \<and> t_Status tf = TaskFailed)
      \<and> \<not> completed_once s ''F''
      \<and> (\<exists>tt. tasks s ''T'' = Some tt \<and> t_Status tt = TaskFailed
            \<and> t_Error tt = Some dependencyFailed
            \<and> (\<forall>t. Started ''T'' t \<notin> set (trace s)))"
proof -
  let ?ts = "[''F'' \<mapsto> cpuTask ''F'' [], ''G'' \<mapsto> cpuTask ''G'' [''F''],
              ''T'' \<mapsto> cpuTask ''T'' [''G'']]"
  let ?acts = "[SchedCheck (Suc 0) [''F'', ''G'', ''T''], SchedGetReady [''F'', ''G'', ''T''],
           SchedDispatch, SchedSleep 10, WorkerStart 0, Tick 5,
           WorkerRunReturns 0 (Some ''exit status 1''),
           SchedCheck (Suc (Suc 0)) [''F'', ''G'', ''T'']]"
  have "\<exists>s. run (twoCpus 3) ?acts (init_state ?ts) = Some s \<and> scheduler s = Exited
      \<and> (\<exists>tf. tasks s ''F'' = Some tf \<and> t_Status tf = TaskFailed)
      \<and> \<not> completed_once s ''F''"
    by (simp add: run_simps completed_once_def)
  then obtain s tf where r: "run (twoCpus 3) ?acts (init_state ?ts) = Some s"
    and e: "scheduler s = Exited" and f: "tasks s ''F'' = Some tf" "t_Status tf = TaskFailed"
    and nc: "\<not> completed_once s ''F''" by blast
  have "(''T'', ''G'') \<in> depends_on ?ts" "(''G'', ''F'') \<in> depends_on ?ts"
    by (simp_all add: depends_on_def cpuTask_def)
  then have p: "(''T'', ''F'') \<in> (depends_on ?ts)\<^sup>+" by (meson trancl.intros)
  from failure_propagates[OF admitted_example(1) run_reachable[OF r] e p f disjI2[OF nc]]
  show ?thesis using r e f nc by blast
qed

text \<open>
  A worker marks its task Running only once its goroutine runs, so a task that was
  dispatched is still Ready when the supervisor wakes up before that, and
  \<open>getReadyTasks\<close> hands it out again.  In the run below \<open>F\<close> is dispatched twice; its
  first run succeeds, \<open>T\<close> is started and completes, and the second run of \<open>F\<close> fails: at
  the exit of the supervisor \<open>F\<close> is Failed, and \<open>T\<close>, which depends on \<open>F\<close>, is Completed
  and its command was executed.
\<close>

theorem dependent_ran_counterexample:
  "\<exists>s. run (twoCpus 2)
          [SchedCheck (Suc (Suc 0)) [''F'', ''T''], SchedGetReady [''F'', ''T''], SchedDispatch,
           SchedSleep 10,
           SchedCheck (Suc (Suc 0)) [''F'', ''T''], SchedGetReady [''F'', ''T''], SchedDispatch,
           SchedSleep 10,
           WorkerStart 0, WorkerRunReturns 0 None, WorkerNotify 0, WorkerRelease 0,
           SchedCheck (Suc (Suc 0)) [''F'', ''T''], SchedGetReady [''F'', ''T''], SchedDispatch,
           SchedSleep 10,
           WorkerStart 1, WorkerStart 0, WorkerRunReturns 1 None,
           WorkerRunReturns 0 (Some ''exit status 1''),
           SchedCheck (Suc (Suc 0)) [''F'', ''T'']]
          (init_state [''F'' \<mapsto> cpuTask ''F'' [], ''T'' \<mapsto> cpuTask ''T'' [''F'']]) = Some s
      \<and> scheduler s = Exited
      \<and> (''T'', ''F'') \<in> depends_on [''F'' \<mapsto> cpuTask ''F'' [], ''T'' \<mapsto> cpuTask ''T'' [''F'']]
      \<and> (\<exists>tf. tasks s ''F'' = Some tf \<and> t_Status tf = TaskFailed
             \<and> t_Error tf = Some ''exit status 1'')
      \<and> (\<exists>tt. tasks s ''T'' = Some tt \<and> t_Status tt = TaskCompleted \<and> t_Error tt = None)
      \<and> trace s = [Ended ''F'' False 30, Ended ''T'' True 30, Started ''F'' 30, Started ''T'' 30,
                    Dispatched ''T'', Enqueued ''F'', Ended ''F'' True 20, Started ''F'' 20,
                    Dispatched ''F'', Dispatched ''F'']"
  by (simp add: run_simps depends_on_def)

subsection \<open>No task at all\<close>

text \<open>
  Claim C6 (execution of an empty task set).  With no task admitted, validation succeeds,
  but no state that \<open>Execute\<close> can reach has the end signalled by the completion handler:
  the handler compares the number of completions with the number of tasks only after it
  has received a completion, and none is ever sent.  So \<open>Execute\<close> has no outcome at all on
  the empty task set: it does not return.
\<close>

theorem empty_execute_never_returns:
  "validateDAG n [] [] Map.empty = Some None
   \<and> (reachable cfg (init_state Map.empty) s \<longrightarrow> \<not> returned s)
   \<and> \<not> Execute cfg Map.empty (r, s)"
proof (intro conjI impI)
  show "validateDAG n [] [] Map.empty = Some None" by (simp add: validateDAG_def)
  have idle: "idle_inv s'" if "reachable cfg (init_state Map.empty) s'" for s'
    using that
  proof (induction rule: reachable_induct)
    case init
    then show ?case by (simp add: idle_inv_def init_state_def)
  next
    case (step s a s')
    then show ?case using idle_inv_step by blast
  qed
  show nr: "\<not> returned s" if "reachable cfg (init_state Map.empty) s"
    using idle[OF that] by (simp add: idle_inv_def returned_def)
  show "\<not> Execute cfg Map.empty (r, s)"
  proof
    assume "Execute cfg Map.empty (r, s)"
    then show False
    proof (cases rule: Execute.cases)
      case (invalid order1 order2 n e)
      then have "order1 = []" "order2 = []" by (simp_all add: iteration_order_def)
      then show ?thesis using invalid by (simp add: validateDAG_def)
    next
      case (completed order1 order2 n)
      then show ?thesis using idle[of s] by (simp add: idle_inv_def returned_def)
    qed
  qed
qed

theorem empty_execute_never_returns_witness:
  "\<exists>s. run (twoCpus 0) [SchedCheck 0 []] (init_state Map.empty) = Some s
      \<and> reachable (twoCpus 0) (init_state Map.empty) s
      \<and> scheduler s = Exited \<and> completedTasks s = cfg_totalTasks (twoCpus 0)
      \<and> \<not> returned s"
proof -
  have "\<exists>s. run (twoCpus 0) [SchedCheck 0 []] (init_state Map.empty) = Some s
      \<and> scheduler s = Exited \<and> completedTasks s = cfg_totalTasks (twoCpus 0)"
    by (simp add: run_simps)
  then obtain s where r: "run (twoCpus 0) [SchedCheck 0 []] (init_state Map.empty) = Some s"
    and e: "scheduler s = Exited" "completedTasks s = cfg_totalTasks (twoCpus 0)" by blast
  from empty_execute_never_returns[of 0 "twoCpus 0" s] run_reachable[OF r]
  have "\<not> returned s" by blast
  then show ?thesis using r e run_reachable[OF r] by blast
qed
end
